theory Spec2Isabelle
  imports Main "HOL-Library.Sublist"
begin

section \<open>The bounded buffer of \<open>buffer.c\<close>\<close>

text \<open>
  \<open>buffer.h\<close> declares the queue as a struct of a pointer array and four \<open>int\<close>s.
  A slot of the array holds a \<open>char *\<close>: \<open>None\<close> is the \<open>NULL\<close> pointer (the end-of-input
  marker of the manager), \<open>Some x\<close> a pointer to a heap string \<open>x\<close>. The type \<open>'a\<close> of the
  pointees is left open: it is \<open>string\<close> when the text of a line matters and anything that
  tells two allocations apart when their identity does.

  The \<open>int\<close> fields hold mathematical integers. Under the invariant \<open>buffer_inv\<close>
  below every value that \<open>buffer_push\<close> and \<open>buffer_pop\<close> compute lies in
  \<open>0 .. capacity\<close> (lemma \<open>int_values_in_range\<close>), so their additions are written
  with \<open>+\<close>. The sum \<open>head + i\<close> of \<open>buffer_destroy\<close> can reach \<open>2 * capacity - 2\<close>, and
  the counters of the workers grow with the input: these additions are written with
  \<open>c_add\<close>, the addition of 32-bit \<open>int\<close>s.

  The mutex and the two condition variables are not fields of the model. What they
  contribute is atomicity: the code between \<open>pthread_mutex_lock\<close> and the next
  \<open>pthread_mutex_unlock\<close> or \<open>pthread_cond_wait\<close> runs without interference on the
  struct, and is one function of the model.
\<close>

record 'a buffer =
  lines :: "'a option list"
  capacity :: int
  count :: int
  head :: int
  tail :: int
  shutting_down :: bool

text \<open>
  An \<open>int\<close> has 32 bits. The C standard leaves a signed addition that overflows
  undefined; the compiled program wraps around in two's complement, and so does
  \<open>c_add\<close>: \<open>int32\<close> brings an integer into the range from \<open>INT_MIN\<close> to \<open>INT_MAX\<close>
  modulo \<open>2 ^ 32\<close>.
\<close>

definition INT_MAX :: int where
  "INT_MAX = 2147483647"

definition INT_MIN :: int where
  "INT_MIN = - 2147483648"

definition int32 :: "int \<Rightarrow> int" where
  "int32 x = (x + 2147483648) mod 4294967296 - 2147483648"

definition c_add :: "int \<Rightarrow> int \<Rightarrow> int" where
  "c_add a b = int32 (a + b)"

text \<open>
  The remainder operator \<open>%\<close> of C truncates towards zero, unlike \<open>mod\<close> on \<open>int\<close>.
\<close>

definition c_rem :: "int \<Rightarrow> int \<Rightarrow> int" where
  "c_rem a b = a - b * (sgn a * sgn b * (\<bar>a\<bar> div \<bar>b\<bar>))"

text \<open>
  How a call of \<open>buffer_push\<close> or \<open>buffer_pop\<close> leaves a critical section: it returns
  a value (\<open>Ret\<close>, with the struct as it is at \<open>pthread_mutex_unlock\<close>), or it enters
  \<open>pthread_cond_wait\<close> and sleeps with the struct untouched (\<open>Blocked\<close>). \<open>Fault\<close> stands
  for the undefined behaviour of C: an array access outside the allocated slots, or a
  remainder by zero.
\<close>

datatype ('r, 'a) outcome = Ret 'r "'a buffer" | Blocked | Fault

text \<open>The value a call handed to its caller, if it has returned.\<close>

definition returned_value :: "('r, 'a) outcome \<Rightarrow> 'r option" where
  "returned_value r = (case r of Ret v b \<Rightarrow> Some v | Blocked \<Rightarrow> None | Fault \<Rightarrow> None)"

definition in_bounds :: "'a buffer \<Rightarrow> int \<Rightarrow> bool" where
  "in_bounds b i \<longleftrightarrow> 0 \<le> i \<and> i < int (length (lines b))"

text \<open>
  Process termination with a status, after the messages written to \<open>stderr\<close>.
\<close>

datatype halt = Halt (status: int) (stderr: "string list")

definition EXIT_FAILURE :: int where
  "EXIT_FAILURE = 1"

text \<open>
  \<open>buffer_init\<close>. The first argument is what \<open>malloc\<close> returned: \<open>None\<close> for \<open>NULL\<close>,
  otherwise the fresh array, whose slots hold whatever the allocator left there. On
  \<open>NULL\<close> the function prints with \<open>perror\<close> and calls \<open>exit(EXIT_FAILURE)\<close>: it does not
  return.
\<close>

definition buffer_init :: "'a option list option \<Rightarrow> int \<Rightarrow> halt + 'a buffer" where
  "buffer_init mem cap =
     (case mem of
        None \<Rightarrow> Inl (Halt EXIT_FAILURE [''Failed to allocate buffer lines array''])
      | Some arr \<Rightarrow>
          Inr \<lparr>lines = arr, capacity = cap, count = 0, head = 0, tail = 0,
               shutting_down = False\<rparr>)"

definition buffer_signal_shutdown :: "'a buffer \<Rightarrow> 'a buffer" where
  "buffer_signal_shutdown b = b\<lparr>shutting_down := True\<rparr>"

text \<open>
  \<open>buffer_push\<close>, lines 63 to 65: the store at \<open>tail\<close> and the two updates.
\<close>

definition enqueue :: "'a buffer \<Rightarrow> 'a option \<Rightarrow> 'a buffer" where
  "enqueue b line =
     b\<lparr>lines := (lines b)[nat (tail b) := line],
       tail := c_rem (tail b + 1) (capacity b),
       count := count b + 1\<rparr>"

text \<open>
  \<open>buffer_push\<close> from the lock at line 49, which is also the state of a call that comes
  back to the loop test at line 50 after a wake-up.
\<close>

definition buffer_push :: "'a buffer \<Rightarrow> 'a option \<Rightarrow> (bool, 'a) outcome" where
  "buffer_push b line =
     (if count b = capacity b then
        (if shutting_down b then Ret False b else Blocked)
      else if in_bounds b (tail b) \<and> capacity b \<noteq> 0 then Ret True (enqueue b line)
      else Fault)"

text \<open>
  \<open>buffer_push\<close> from the return of \<open>pthread_cond_wait\<close> at line 55, with the mutex
  held again: the test of line 57, then the loop test.
\<close>

definition buffer_push_wake :: "'a buffer \<Rightarrow> 'a option \<Rightarrow> (bool, 'a) outcome" where
  "buffer_push_wake b line =
     (if shutting_down b then Ret False b else buffer_push b line)"

text \<open>
  \<open>buffer_pop\<close>, lines 88 to 91. The value read at \<open>head\<close> is returned by \<open>buffer_pop\<close>
  below; the slot is cleared.
\<close>

definition dequeue :: "'a buffer \<Rightarrow> 'a buffer" where
  "dequeue b =
     b\<lparr>lines := (lines b)[nat (head b) := None],
       head := c_rem (head b + 1) (capacity b),
       count := count b - 1\<rparr>"

definition buffer_pop :: "'a buffer \<Rightarrow> ('a option, 'a) outcome" where
  "buffer_pop b =
     (if count b = 0 then
        (if shutting_down b then Ret None b else Blocked)
      else if in_bounds b (head b) \<and> capacity b \<noteq> 0
        then Ret (lines b ! nat (head b)) (dequeue b)
      else Fault)"

text \<open>
  \<open>buffer_pop\<close> from the return of \<open>pthread_cond_wait\<close> at line 80: the test of line 82,
  then the loop test.
\<close>

definition buffer_pop_wake :: "'a buffer \<Rightarrow> ('a option, 'a) outcome" where
  "buffer_pop_wake b =
     (if shutting_down b \<and> count b = 0 then Ret None b else buffer_pop b)"

text \<open>
  \<open>buffer_destroy\<close>. The loop of lines 25 to 30 with its counter \<open>i\<close>; the accumulator
  is the list of pointers handed to \<open>free\<close>, in the order of the calls. \<open>None\<close> is
  undefined behaviour (a slot outside the array). The counter stays below \<open>count\<close>, so
  \<open>i + 1\<close> does not overflow. Every buffer of the model comes from a
  \<open>buffer_init\<close> that returned, so \<open>buffer->lines\<close> is not \<open>NULL\<close> and the guard of line 22
  is passed.
\<close>

function destroy_loop :: "'a buffer \<Rightarrow> int \<Rightarrow> 'a list \<Rightarrow> 'a list option" where
  "destroy_loop b i freed =
     (if i < count b then
        (let current_idx = c_rem (c_add (head b) i) (capacity b) in
         if capacity b = 0 \<or> \<not> in_bounds b current_idx then None
         else (case lines b ! nat current_idx of
                 None \<Rightarrow> destroy_loop b (i + 1) freed
               | Some p \<Rightarrow> destroy_loop b (i + 1) (freed @ [p])))
      else Some freed)"
  by pat_completeness auto
termination
  by (relation "measure (\<lambda>(b, i, freed). nat (count b - i))") auto

declare destroy_loop.simps [simp del]

definition buffer_destroy :: "'a buffer \<Rightarrow> 'a list option" where
  "buffer_destroy b = destroy_loop b 0 []"

subsection \<open>Invariant and abstract contents\<close>

definition buffer_inv :: "'a buffer \<Rightarrow> bool" where
  "buffer_inv b \<longleftrightarrow>
     0 < capacity b \<and> int (length (lines b)) = capacity b \<and>
     0 \<le> count b \<and> count b \<le> capacity b \<and>
     0 \<le> head b \<and> head b < capacity b \<and>
     0 \<le> tail b \<and> tail b < capacity b \<and>
     tail b = (head b + count b) mod capacity b"

text \<open>
  The queue as a list, oldest item first: the \<open>count\<close> slots from \<open>head\<close> on, in ring
  order.
\<close>

definition slot :: "'a buffer \<Rightarrow> nat \<Rightarrow> 'a option" where
  "slot b i = lines b ! nat ((head b + int i) mod capacity b)"

definition queue_items :: "'a buffer \<Rightarrow> 'a option list" where
  "queue_items b = map (slot b) [0..<nat (count b)]"

subsection \<open>Interleavings of calls on the shared buffer\<close>

text \<open>
  Threads touch the struct only inside the critical sections above, so an execution of
  the program is, for the buffer, a sequence of these sections in some order. An event
  names the section that runs next: a call of \<open>buffer_push\<close> or \<open>buffer_pop\<close> taking the
  lock, a sleeping call coming back from \<open>pthread_cond_wait\<close>, or
  \<open>buffer_signal_shutdown\<close>. Any order of events is allowed, wake-ups without a signal
  included (POSIX permits them), so every interleaving of the real threads is among the
  event lists.

  The history keeps, next to the buffer, what the callers saw: the arguments of the
  calls of \<open>buffer_push\<close> that returned \<open>true\<close> and the values the calls of
  \<open>buffer_pop\<close> returned, both in order.
\<close>

datatype 'a event = Push "'a option" | Push_wake "'a option" | Pop | Pop_wake | Shutdown

record 'a history =
  buf :: "'a buffer"
  accepted :: "'a option list"
  returned :: "'a option list"
  faulted :: bool

definition start :: "'a buffer \<Rightarrow> 'a history" where
  "start b = \<lparr>buf = b, accepted = [], returned = [], faulted = False\<rparr>"

definition after_push :: "'a history \<Rightarrow> 'a option \<Rightarrow> (bool, 'a) outcome \<Rightarrow> 'a history" where
  "after_push h line r =
     (case r of
        Ret ok b' \<Rightarrow> h\<lparr>buf := b', accepted := (if ok then accepted h @ [line] else accepted h)\<rparr>
      | Blocked \<Rightarrow> h
      | Fault \<Rightarrow> h\<lparr>faulted := True\<rparr>)"

definition after_pop :: "'a history \<Rightarrow> ('a option, 'a) outcome \<Rightarrow> 'a history" where
  "after_pop h r =
     (case r of
        Ret v b' \<Rightarrow> h\<lparr>buf := b', returned := returned h @ [v]\<rparr>
      | Blocked \<Rightarrow> h
      | Fault \<Rightarrow> h\<lparr>faulted := True\<rparr>)"

fun apply_event :: "'a history \<Rightarrow> 'a event \<Rightarrow> 'a history" where
  "apply_event h (Push line) = after_push h line (buffer_push (buf h) line)"
| "apply_event h (Push_wake line) = after_push h line (buffer_push_wake (buf h) line)"
| "apply_event h Pop = after_pop h (buffer_pop (buf h))"
| "apply_event h Pop_wake = after_pop h (buffer_pop_wake (buf h))"
| "apply_event h Shutdown = h\<lparr>buf := buffer_signal_shutdown (buf h)\<rparr>"

definition run :: "'a history \<Rightarrow> 'a event list \<Rightarrow> 'a history" where
  "run h es = foldl apply_event h es"

text \<open>Event lists in which the only calls are calls of \<open>buffer_pop\<close>.\<close>

definition only_pops :: "'a event list \<Rightarrow> bool" where
  "only_pops es \<longleftrightarrow> list_all (\<lambda>e. e = Pop \<or> e = Pop_wake) es"

text \<open>The pointers of a list of slots or results that are not \<open>NULL\<close>, in order.\<close>

definition payloads :: "'a option list \<Rightarrow> 'a list" where
  "payloads xs = List.map_filter (\<lambda>x. x) xs"

section \<open>The worker of \<open>200104004045_main.c\<close>\<close>

text \<open>
  \<open>strstr\<close> of the C library on the texts of two strings: the offset of the first
  occurrence of the needle, \<open>None\<close> for \<open>NULL\<close>.
\<close>

fun strstr :: "string \<Rightarrow> string \<Rightarrow> nat option" where
  "strstr [] needle = (if needle = [] then Some 0 else None)"
| "strstr (c # rest) needle =
     (if prefix needle (c # rest) then Some 0 else map_option Suc (strstr rest needle))"

text \<open>
  The loop of \<open>worker_function\<close>, lines 45 to 59, for the search term \<open>g_search_term\<close>. The
  list holds the values that the worker's successive calls of \<open>buffer_pop\<close> return. The
  result is \<open>local_matches\<close> at the \<open>break\<close>; it is \<open>None\<close> when the list ends before any
  \<open>NULL\<close>: the worker is then still inside the loop, in its next \<open>buffer_pop\<close>.
\<close>

fun worker_loop :: "string \<Rightarrow> int \<Rightarrow> string option list \<Rightarrow> int option" where
  "worker_loop search_term local_matches [] = None"
| "worker_loop search_term local_matches (None # rest) = Some local_matches"
| "worker_loop search_term local_matches (Some line # rest) =
     worker_loop search_term
       (if strstr line search_term \<noteq> None then c_add local_matches 1 else local_matches)
       rest"


text \<open>
  The same lines as one thread among others. The worker is about to call \<open>buffer_pop\<close>,
  asleep inside that call, or past the loop; \<open>seen\<close> records the values its calls have
  returned and \<open>stored\<close> its stores into \<open>worker_match_counts\<close>. A step of the worker is
  one critical section of \<open>buffer_pop\<close> on the shared buffer followed by what the worker
  does with the result: the \<open>break\<close> and the store of line 61 on \<open>NULL\<close>, the test of
  line 55 otherwise. Between its steps the other threads may perform any critical
  sections on the buffer. \<open>wfault\<close> records undefined behaviour inside \<open>buffer_pop\<close>.
\<close>

datatype wloop = Popping | Pop_wait | Exited

record worker =
  wbuf :: "string buffer"
  wpc :: wloop
  local_matches :: int
  seen :: "string option list"
  stored :: "(nat \<times> int) list"
  wfault :: bool










text \<open>A store into \<open>worker_match_counts\<close>, and a list of them in order.\<close>

definition store :: "int list \<Rightarrow> nat \<times> int \<Rightarrow> int list" where
  "store counts w = counts[fst w := snd w]"



subsection \<open>The barrier and the summary\<close>

text \<open>
  The loop of lines 68 to 70, with its counter \<open>i\<close>, on \<open>worker_match_counts\<close> and
  \<open>g_total_matches_summary\<close>, both of type \<open>int\<close>.
\<close>

function summary_loop :: "int list \<Rightarrow> nat \<Rightarrow> nat \<Rightarrow> int \<Rightarrow> int" where
  "summary_loop cs num_workers i summary =
     (if i < num_workers then summary_loop cs num_workers (i + 1) (c_add summary (cs ! i))
      else summary)"
  by pat_completeness auto
termination
  by (relation "measure (\<lambda>(cs, num_workers, i, summary). num_workers - i)") auto

declare summary_loop.simps [simp del]

definition PTHREAD_BARRIER_SERIAL_THREAD :: int where
  "PTHREAD_BARRIER_SERIAL_THREAD = - 1"

text \<open>
  What a successful \<open>pthread_barrier_wait\<close> returns (POSIX): the serial constant to one
  of the waiting threads, which the library picks, and 0 to the others.
\<close>

definition barrier_rc :: "nat \<Rightarrow> nat \<Rightarrow> int" where
  "barrier_rc serial t = (if t = serial then PTHREAD_BARRIER_SERIAL_THREAD else 0)"

text \<open>
  Where a worker is after its loop: before the store of line 61, before the call of
  line 65, asleep in \<open>pthread_barrier_wait\<close>, or past line 75.
\<close>

datatype wpc = At_store | At_barrier | In_barrier | Finished

text \<open>
  The shared state of the workers after their loops: \<open>worker_match_counts\<close>, the number
  of threads that have entered the barrier, \<open>g_total_matches_summary\<close>, and for the proofs
  the list of threads that have run the summary loop and the messages of line 73.
\<close>

record pool =
  pcs :: "wpc list"
  counts :: "int list"
  arrived :: nat
  total_matches :: int
  summed_by :: "nat list"
  barrier_errors :: "nat list"

definition pool_init :: "nat \<Rightarrow> pool" where
  "pool_init num_workers =
     \<lparr>pcs = replicate num_workers At_store, counts = replicate num_workers 0,
      arrived = 0, total_matches = 0, summed_by = [], barrier_errors = []\<rparr>"

text \<open>
  Lines 66 to 75, for the thread \<open>t\<close> that \<open>pthread_barrier_wait\<close> has released with the
  value \<open>rc\<close>.
\<close>

definition after_barrier :: "nat \<Rightarrow> int \<Rightarrow> nat \<Rightarrow> pool \<Rightarrow> pool" where
  "after_barrier num_workers rc t s =
     (if rc = PTHREAD_BARRIER_SERIAL_THREAD then
        s\<lparr>total_matches := summary_loop (counts s) num_workers 0 (total_matches s),
          summed_by := summed_by s @ [t]\<rparr>
      else if rc \<noteq> 0 then s\<lparr>barrier_errors := barrier_errors s @ [t]\<rparr>
      else s)"

text \<open>
  One step of worker \<open>t\<close>, whose loop ended with \<open>local_matches = local t\<close>. A thread
  inside the barrier moves only once all \<open>num_workers\<close> threads have entered it.
\<close>

definition pool_step :: "(nat \<Rightarrow> int) \<Rightarrow> nat \<Rightarrow> nat \<Rightarrow> pool \<Rightarrow> nat \<Rightarrow> pool" where
  "pool_step local num_workers serial s t =
     (if length (pcs s) \<le> t then s
      else (case pcs s ! t of
              At_store \<Rightarrow> s\<lparr>counts := store (counts s) (t, local t), pcs := (pcs s)[t := At_barrier]\<rparr>
            | At_barrier \<Rightarrow> s\<lparr>arrived := arrived s + 1, pcs := (pcs s)[t := In_barrier]\<rparr>
            | In_barrier \<Rightarrow>
                if arrived s < num_workers then s
                else after_barrier num_workers (barrier_rc serial t) t
                       (s\<lparr>pcs := (pcs s)[t := Finished]\<rparr>)
            | Finished \<Rightarrow> s))"

definition pool_run :: "(nat \<Rightarrow> int) \<Rightarrow> nat \<Rightarrow> nat \<Rightarrow> nat list \<Rightarrow> pool" where
  "pool_run local num_workers serial schedule =
     foldl (pool_step local num_workers serial) (pool_init num_workers) schedule"

section \<open>The manager\<close>

subsection \<open>Start-up\<close>

text \<open>
  Lines 133 to 146 of \<open>main\<close>. The arguments say what the environment did: the result of
  the \<open>malloc\<close> inside \<open>buffer_init\<close>, whether \<open>pthread_barrier_init\<close> succeeded, whether
  \<open>calloc\<close> returned memory (it is zeroed). \<open>Inl\<close> is the end of the process, by \<open>exit\<close>
  in \<open>buffer_init\<close> or by \<open>return EXIT_FAILURE\<close> after the clean-up calls; only \<open>Inr\<close>
  reaches line 148 and the creation of the workers.
\<close>

definition main_setup ::
  "'a option list option \<Rightarrow> bool \<Rightarrow> bool \<Rightarrow> int \<Rightarrow> int \<Rightarrow> halt + ('a buffer \<times> int list)" where
  "main_setup lines_mem barrier_ok counts_mem buffer_capacity num_workers =
     (case buffer_init lines_mem buffer_capacity of
        Inl h \<Rightarrow> Inl h
      | Inr b \<Rightarrow>
          if \<not> barrier_ok then Inl (Halt EXIT_FAILURE [''pthread_barrier_init failed''])
          else if \<not> counts_mem then
            Inl (Halt EXIT_FAILURE [''calloc for worker_match_counts failed''])
          else Inr (b, replicate (nat num_workers) 0))"

subsection \<open>Reading records\<close>

definition NUL :: char where
  "NUL = CHR 0x00"

definition newline :: char where
  "newline = CHR 0x0A"

text \<open>
  \<open>getline\<close> of the C library on the unread rest of the file: \<open>None\<close> is the result -1
  at end of file; otherwise the record read, which ends with the first newline of the
  rest if there is one and is the whole rest if not, and what remains unread.
\<close>

definition getline :: "string \<Rightarrow> (string \<times> string) option" where
  "getline rest =
     (if rest = [] then None
      else (case dropWhile (\<lambda>c. c \<noteq> newline) rest of
              [] \<Rightarrow> Some (rest, [])
            | c # rest' \<Rightarrow> Some (takeWhile (\<lambda>c. c \<noteq> newline) rest @ [c], rest')))"

text \<open>
  Lines 197 to 199 on the \<open>read_len\<close> bytes that \<open>getline\<close> stored.
\<close>

definition strip_newline :: "string \<Rightarrow> string" where
  "strip_newline bytes =
     (let read_len = int (length bytes) in
      if read_len > 0 \<and> bytes ! nat (read_len - 1) = newline
      then bytes[nat (read_len - 1) := NUL] else bytes)"

text \<open>
  The text of the C string that starts at the first of these bytes; \<open>getline\<close> puts a
  terminating \<open>NUL\<close> after them.
\<close>

definition c_string :: "string \<Rightarrow> string" where
  "c_string bytes = takeWhile (\<lambda>c. c \<noteq> NUL) bytes"

definition line_to_push :: "string \<Rightarrow> string" where
  "line_to_push bytes = c_string (strip_newline bytes)"

text \<open>
  The body of the reading loop, lines 190 to 205, up to the first critical section of
  \<open>buffer_push\<close>: \<open>Inl\<close> is the \<open>break\<close> of line 193 after \<open>buffer_signal_shutdown\<close>.
\<close>

definition manager_iteration ::
  "bool \<Rightarrow> string buffer \<Rightarrow> string \<Rightarrow> string buffer + (bool, string) outcome" where
  "manager_iteration sigint_received_flag b bytes =
     (if sigint_received_flag then Inl (buffer_signal_shutdown b)
      else Inr (buffer_push b (Some (line_to_push bytes))))"

subsection \<open>Delivering the end-of-input markers\<close>

text \<open>
  The loop of lines 235 to 241. The manager is about to call \<open>buffer_push\<close> for index
  \<open>i\<close> (or to leave the loop when \<open>i\<close> has reached \<open>g_num_workers\<close>), asleep inside that
  call, or past the loop. The lists record, for the proofs, the indices for which
  \<open>buffer_push\<close> was called, returned \<open>true\<close> and returned \<open>false\<close>. The counter is
  incremented only while it is below \<open>g_num_workers\<close>, an \<open>int\<close>, so \<open>i++\<close> does not
  overflow.
\<close>

datatype mpc = Marker_call nat | Marker_wait nat | Joining

record 'a manager =
  mbuf :: "'a buffer"
  mpc :: mpc
  attempted :: "nat list"
  delivered :: "nat list"
  refused :: "nat list"
  mfault :: bool

definition manager_start :: "'a buffer \<Rightarrow> 'a manager" where
  "manager_start b =
     \<lparr>mbuf = b, mpc = Marker_call 0, attempted = [], delivered = [], refused = [],
      mfault = False\<rparr>"

definition marker_result :: "'a manager \<Rightarrow> nat \<Rightarrow> (bool, 'a) outcome \<Rightarrow> 'a manager" where
  "marker_result s i r =
     (case r of
        Ret ok b' \<Rightarrow>
          if ok then s\<lparr>mbuf := b', mpc := Marker_call (i + 1), delivered := delivered s @ [i]\<rparr>
          else s\<lparr>mbuf := b', mpc := Joining, refused := refused s @ [i]\<rparr>
      | Blocked \<Rightarrow> s\<lparr>mpc := Marker_wait i\<rparr>
      | Fault \<Rightarrow> s\<lparr>mpc := Joining, mfault := True\<rparr>)"

definition manager_step :: "nat \<Rightarrow> 'a manager \<Rightarrow> 'a manager" where
  "manager_step num_workers s =
     (case mpc s of
        Marker_call i \<Rightarrow>
          if i < num_workers
          then marker_result (s\<lparr>attempted := attempted s @ [i]\<rparr>) i (buffer_push (mbuf s) None)
          else s\<lparr>mpc := Joining\<rparr>
      | Marker_wait i \<Rightarrow> marker_result s i (buffer_push_wake (mbuf s) None)
      | Joining \<Rightarrow> s)"

text \<open>
  While the manager delivers markers the workers run: between any two steps of the
  manager the other threads may perform any critical sections on the buffer.
\<close>

datatype 'a action = Manager | Other "'a event"

definition other_step :: "'a manager \<Rightarrow> 'a event \<Rightarrow> 'a manager" where
  "other_step s e =
     (let h = apply_event (start (mbuf s)) e
      in s\<lparr>mbuf := buf h, mfault := (mfault s \<or> faulted h)\<rparr>)"

fun manager_action :: "nat \<Rightarrow> 'a manager \<Rightarrow> 'a action \<Rightarrow> 'a manager" where
  "manager_action num_workers s Manager = manager_step num_workers s"
| "manager_action num_workers s (Other e) = other_step s e"

definition deliver_markers :: "nat \<Rightarrow> 'a buffer \<Rightarrow> 'a action list \<Rightarrow> 'a manager" where
  "deliver_markers num_workers b schedule =
     foldl (manager_action num_workers) (manager_start b) schedule"

section \<open>Invariants and sample runs\<close>

text \<open>
  What every history that starts from a fresh buffer satisfies: the invariant of the
  struct, no undefined behaviour so far, and the non-\<open>NULL\<close> lines accepted by
  \<open>buffer_push\<close> are those returned by \<open>buffer_pop\<close> followed by those still queued.
\<close>

definition history_inv :: "'a history \<Rightarrow> bool" where
  "history_inv h \<longleftrightarrow>
     buffer_inv (buf h) \<and> \<not> faulted h \<and>
     payloads (accepted h) = payloads (returned h) @ payloads (queue_items (buf h))"

text \<open>
  A buffer of capacity 2 as \<open>buffer_init\<close> leaves it, the array still holding what the
  allocator left there, and a run on it: the third push finds the buffer full and
  sleeps, is woken after a pop, and the last pop sleeps on the empty buffer until the
  shutdown.
\<close>

definition demo_buffer :: "string buffer" where
  "demo_buffer =
     \<lparr>lines = [Some ''junk'', None], capacity = 2, count = 0, head = 0, tail = 0,
      shutting_down = False\<rparr>"

definition demo_events :: "string event list" where
  "demo_events =
     [Push (Some ''a''), Push (Some ''b''), Push (Some ''c''), Pop, Push_wake (Some ''c''),
      Pop, Pop, Pop, Shutdown, Pop_wake]"

text \<open>
  States of that buffer: after a shutdown request with nothing queued, full, and
  holding one end-of-input marker.
\<close>

definition shut_buffer :: "string buffer" where
  "shut_buffer = buffer_signal_shutdown demo_buffer"

definition demo_full :: "string buffer" where
  "demo_full =
     \<lparr>lines = [Some ''c'', Some ''b''], capacity = 2, count = 2, head = 1, tail = 1,
      shutting_down = False\<rparr>"

definition marker_buffer :: "string buffer" where
  "marker_buffer =
     \<lparr>lines = [None, None], capacity = 2, count = 1, head = 0, tail = 1,
      shutting_down = False\<rparr>"







text \<open>
  The invariant of the workers' shared state after their loops. A thread has entered the
  barrier when it sleeps in it or is past it; \<open>arrived\<close> counts these threads; a slot of
  \<open>worker_match_counts\<close> is 0 until its worker stores its count; no thread is past the
  barrier before all have entered; and the summary has been computed, once and with all
  counts, by the additions of \<open>int\<close>, exactly if the thread that got the serial value is
  past the barrier.
\<close>

definition entered :: "wpc \<Rightarrow> bool" where
  "entered p \<longleftrightarrow> p = In_barrier \<or> p = Finished"

definition pool_inv :: "(nat \<Rightarrow> int) \<Rightarrow> nat \<Rightarrow> nat \<Rightarrow> pool \<Rightarrow> bool" where
  "pool_inv local n serial s \<longleftrightarrow>
     length (pcs s) = n \<and> length (counts s) = n \<and>
     arrived s = length (filter entered (pcs s)) \<and>
     (\<forall>t<n. counts s ! t = (if pcs s ! t = At_store then 0 else local t)) \<and>
     (Finished \<in> set (pcs s) \<longrightarrow> arrived s = n) \<and>
     summed_by s = (if pcs s ! serial = Finished then [serial] else []) \<and>
     total_matches s = (if pcs s ! serial = Finished then int32 (\<Sum>t<n. local t) else 0) \<and>
     barrier_errors s = []"

text \<open>
  Two workers whose loops ended with 0 and 1 matches, and two workers whose loops ended
  with \<open>INT_MAX\<close> and 1 matches.
\<close>

definition demo_local :: "nat \<Rightarrow> int" where
  "demo_local t = [0, 1] ! t"

definition overflow_local :: "nat \<Rightarrow> int" where
  "overflow_local t = [2147483647, 1] ! t"

text \<open>
  The invariant of the marker loop, for \<open>k\<close> markers delivered so far.
\<close>

definition markers_ok :: "nat \<Rightarrow> nat \<Rightarrow> 'a manager \<Rightarrow> bool" where
  "markers_ok n k s \<longleftrightarrow>
     buffer_inv (mbuf s) \<and> \<not> mfault s \<and> delivered s = [0..<k] \<and> k \<le> n \<and>
     (case mpc s of
        Marker_call i \<Rightarrow> i = k \<and> refused s = [] \<and> attempted s = [0..<k]
      | Marker_wait i \<Rightarrow> i = k \<and> k < n \<and> refused s = [] \<and> attempted s = [0..<k] @ [k]
      | Joining \<Rightarrow>
          refused s = [] \<and> k = n \<and> attempted s = [0..<k] \<or>
          refused s = [k] \<and> k < n \<and> attempted s = [0..<k] @ [k])"

text \<open>
  Two schedules for the marker loop. On the full buffer: the manager sleeps in its first
  push until a worker pops, delivers marker 0, sleeps in its second push, and wakes up
  after a shutdown request. On the empty buffer of capacity 2: the manager delivers two
  markers, sleeps in its third push until a worker pops, delivers the third marker and
  leaves the loop.
\<close>

definition demo_schedule :: "string action list" where
  "demo_schedule =
     [Manager, Other Pop, Manager, Manager, Other Shutdown, Manager, Manager]"

definition relay_schedule :: "string action list" where
  "relay_schedule = [Manager, Manager, Manager, Other Pop, Manager, Manager]"

section \<open>Properties of the buffer\<close>

lemma c_rem_mod: "0 \<le> a \<Longrightarrow> 0 < b \<Longrightarrow> c_rem a b = a mod b"
  by (simp add: c_rem_def sgn_if minus_mult_div_eq_mod)

lemma int_values_in_range:
  assumes "buffer_inv b"
  shows "0 \<le> tail b + 1 \<and> tail b + 1 \<le> capacity b"
    and "0 \<le> head b + 1 \<and> head b + 1 \<le> capacity b"
    and "count b \<noteq> capacity b \<Longrightarrow> 0 \<le> count b + 1 \<and> count b + 1 \<le> capacity b"
    and "count b \<noteq> 0 \<Longrightarrow> 0 \<le> count b - 1 \<and> count b - 1 \<le> capacity b"
    and "0 \<le> i \<Longrightarrow> i < count b \<Longrightarrow> 0 \<le> head b + i \<and> head b + i < 2 * capacity b"
  using assms by (auto simp: buffer_inv_def)

lemma buffer_inv_init:
  "0 < cap \<Longrightarrow> int (length arr) = cap \<Longrightarrow> buffer_init (Some arr) cap = Inr b \<Longrightarrow> buffer_inv b"
  by (auto simp: buffer_init_def buffer_inv_def)

lemma queue_items_init:
  "buffer_init (Some arr) cap = Inr b \<Longrightarrow> queue_items b = []"
  by (auto simp: buffer_init_def queue_items_def)

lemma buffer_inv_enqueue:
  assumes "buffer_inv b" "count b \<noteq> capacity b"
  shows "buffer_inv (enqueue b line)"
  using assms
  by (auto simp: buffer_inv_def enqueue_def c_rem_mod mod_simps algebra_simps)

lemma ring_distinct:
  fixes h c :: int
  assumes "0 < c" "0 \<le> i" "i < j" "j < c"
  shows "(h + i) mod c \<noteq> (h + j) mod c"
proof
  assume "(h + i) mod c = (h + j) mod c"
  then have "c dvd ((h + j) - (h + i))"
    by (metis mod_eq_dvd_iff)
  then have "c dvd (j - i)" by simp
  moreover have "0 < j - i" "j - i < c" using assms by auto
  ultimately show False
    using zdvd_not_zless by blast
qed

lemma queue_items_enqueue:
  assumes "buffer_inv b" "count b \<noteq> capacity b"
  shows "queue_items (enqueue b line) = queue_items b @ [line]"
proof -
  let ?n = "nat (count b)"
  have c: "0 < capacity b" "0 \<le> count b" "count b < capacity b"
    and t: "tail b = (head b + count b) mod capacity b" "0 \<le> tail b"
    and len: "int (length (lines b)) = capacity b" "tail b < capacity b"
    using assms by (auto simp: buffer_inv_def)
  have old: "slot (enqueue b line) i = slot b i" if "i < ?n" for i
  proof -
    have "(head b + int i) mod capacity b \<noteq> (head b + count b) mod capacity b"
      using ring_distinct [of "capacity b" "int i" "count b" "head b"] c that by auto
    then have "nat ((head b + int i) mod capacity b) \<noteq> nat (tail b)"
      using t c by (simp add: nat_eq_iff)
    then show ?thesis
      by (simp add: slot_def enqueue_def)
  qed
  have tl: "nat (tail b) < length (lines b)"
    using len t by linarith
  have "slot (enqueue b line) ?n = (lines b)[nat (tail b) := line] ! nat (tail b)"
    using t c by (simp add: slot_def enqueue_def)
  then have new: "slot (enqueue b line) ?n = line"
    using tl by simp
  have "nat (count b + 1) = Suc ?n" using c by simp
  then show ?thesis
    using old new by (simp add: queue_items_def enqueue_def)
qed


lemma buffer_inv_dequeue:
  assumes "buffer_inv b" "count b \<noteq> 0"
  shows "buffer_inv (dequeue b)"
proof -
  have c: "0 < capacity b" "0 \<le> head b"
    and t: "tail b = (head b + count b) mod capacity b"
    using assms by (auto simp: buffer_inv_def)
  have "((head b + 1) mod capacity b + (count b - 1)) mod capacity b
          = ((head b + 1) + (count b - 1)) mod capacity b"
    by (simp only: mod_add_left_eq)
  then have "tail b = (c_rem (head b + 1) (capacity b) + (count b - 1)) mod capacity b"
    using c t by (simp add: c_rem_mod)
  then show ?thesis
    using assms by (auto simp: buffer_inv_def dequeue_def c_rem_mod)
qed

lemma queue_items_dequeue:
  assumes "buffer_inv b" "count b \<noteq> 0"
  shows "queue_items b = lines b ! nat (head b) # queue_items (dequeue b)"
proof -
  have c: "0 < capacity b" "0 < count b" "count b \<le> capacity b"
    and h: "0 \<le> head b" "head b < capacity b"
    and len: "int (length (lines b)) = capacity b"
    using assms by (auto simp: buffer_inv_def)
  have first: "slot b 0 = lines b ! nat (head b)"
    using h by (simp add: slot_def)
  have rest: "slot (dequeue b) i = slot b (Suc i)" if "i < nat (count b - 1)" for i
  proof -
    have "(head b + 0) mod capacity b \<noteq> (head b + (int i + 1)) mod capacity b"
      using ring_distinct [of "capacity b" 0 "int i + 1" "head b"] c that by auto
    then have ne: "nat ((head b + (int i + 1)) mod capacity b) \<noteq> nat (head b)"
      using h c by (simp add: nat_eq_iff)
    have "(c_rem (head b + 1) (capacity b) + int i) mod capacity b
            = (head b + (int i + 1)) mod capacity b"
      using h c by (simp add: c_rem_mod mod_simps algebra_simps)
    then show ?thesis
      using ne by (simp add: slot_def dequeue_def algebra_simps)
  qed
  have n: "nat (count b) = Suc (nat (count b - 1))" using c by simp
  have "queue_items b = slot b 0 # map (\<lambda>i. slot b (Suc i)) [0..<nat (count b - 1)]"
    unfolding queue_items_def n by (simp add: upt_conv_Cons map_Suc_upt [symmetric] del: upt_Suc)
  also have "map (\<lambda>i. slot b (Suc i)) [0..<nat (count b - 1)] = queue_items (dequeue b)"
    using rest by (simp add: queue_items_def dequeue_def)
  finally show ?thesis using first by simp
qed

lemma length_queue_items: "buffer_inv b \<Longrightarrow> int (length (queue_items b)) = count b"
  by (simp add: queue_items_def buffer_inv_def)



lemma payloads_simps [simp]:
  "payloads [] = []"
  "payloads (None # xs) = payloads xs"
  "payloads (Some x # xs) = x # payloads xs"
  by (simp_all add: payloads_def List.map_filter_simps)

lemma payloads_append [simp]: "payloads (xs @ ys) = payloads xs @ payloads ys"
  by (simp add: payloads_def List.map_filter_def)

lemma slot_shutdown: "slot (b\<lparr>shutting_down := v\<rparr>) = slot b"
  by (rule ext) (simp add: slot_def)

lemma in_bounds_head: "buffer_inv b \<Longrightarrow> in_bounds b (head b)"
  by (simp add: buffer_inv_def in_bounds_def)

lemma in_bounds_tail: "buffer_inv b \<Longrightarrow> in_bounds b (tail b)"
  by (simp add: buffer_inv_def in_bounds_def)

lemma capacity_pos: "buffer_inv b \<Longrightarrow> capacity b \<noteq> 0"
  by (simp add: buffer_inv_def)

lemma buffer_push_cases:
  assumes "buffer_inv b"
  shows "buffer_push b line =
           (if count b = capacity b then (if shutting_down b then Ret False b else Blocked)
            else Ret True (enqueue b line))"
  using assms by (simp add: buffer_push_def in_bounds_tail capacity_pos)

lemma buffer_pop_cases:
  assumes "buffer_inv b"
  shows "buffer_pop b =
           (if count b = 0 then (if shutting_down b then Ret None b else Blocked)
            else Ret (lines b ! nat (head b)) (dequeue b))"
  using assms by (simp add: buffer_pop_def in_bounds_head capacity_pos)

lemma history_inv_push:
  assumes "history_inv h"
  shows "history_inv (after_push h line (buffer_push (buf h) line))"
  using assms
  by (auto simp: history_inv_def after_push_def buffer_push_cases
        buffer_inv_enqueue queue_items_enqueue)

lemma history_inv_push_wake:
  assumes "history_inv h"
  shows "history_inv (after_push h line (buffer_push_wake (buf h) line))"
  using assms history_inv_push [OF assms, of line]
  by (auto simp: buffer_push_wake_def history_inv_def after_push_def)

lemma history_inv_pop:
  assumes "history_inv h"
  shows "history_inv (after_pop h (buffer_pop (buf h)))"
  using assms
proof (cases "count (buf h) = 0")
  case True
  then show ?thesis
    using assms by (auto simp: history_inv_def after_pop_def buffer_pop_cases)
next
  case False
  with assms have "queue_items (buf h) =
      lines (buf h) ! nat (head (buf h)) # queue_items (dequeue (buf h))"
    by (simp add: history_inv_def queue_items_dequeue)
  then have "payloads (queue_items (buf h)) =
      payloads [lines (buf h) ! nat (head (buf h))] @ payloads (queue_items (dequeue (buf h)))"
    by (metis append_Cons append_Nil payloads_append)
  then show ?thesis
    using assms False
    by (simp add: history_inv_def after_pop_def buffer_pop_cases buffer_inv_dequeue)
qed

lemma history_inv_pop_wake:
  assumes "history_inv h"
  shows "history_inv (after_pop h (buffer_pop_wake (buf h)))"
  using assms history_inv_pop [OF assms]
  by (auto simp: buffer_pop_wake_def history_inv_def after_pop_def)

lemma history_inv_shutdown:
  assumes "history_inv h"
  shows "history_inv (h\<lparr>buf := buffer_signal_shutdown (buf h)\<rparr>)"
  using assms
  by (simp add: history_inv_def buffer_signal_shutdown_def buffer_inv_def queue_items_def
        slot_shutdown)

lemma history_inv_event: "history_inv h \<Longrightarrow> history_inv (apply_event h e)"
  by (cases e)
    (simp_all add: history_inv_push history_inv_push_wake history_inv_pop
      history_inv_pop_wake history_inv_shutdown)

lemma history_inv_run: "history_inv h \<Longrightarrow> history_inv (run h es)"
  unfolding run_def by (induction es arbitrary: h) (simp_all add: history_inv_event)

lemma history_inv_start: "buffer_inv b \<Longrightarrow> queue_items b = [] \<Longrightarrow> history_inv (start b)"
  by (simp add: history_inv_def start_def)

lemma capacity_event: "capacity (buf (apply_event h e)) = capacity (buf h)"
  by (cases e)
    (auto simp: after_push_def after_pop_def buffer_push_def buffer_push_wake_def
      buffer_pop_def buffer_pop_wake_def enqueue_def dequeue_def buffer_signal_shutdown_def)

lemma capacity_run: "capacity (buf (run h es)) = capacity (buf h)"
  unfolding run_def by (induction es arbitrary: h) (simp_all add: capacity_event)


lemma event_safe:
  assumes "buffer_inv (buf h)" "\<not> faulted h"
  shows "buffer_inv (buf (apply_event h e)) \<and> \<not> faulted (apply_event h e)"
proof (cases e)
  case (Push line)
  with assms show ?thesis
    by (simp add: after_push_def buffer_push_cases buffer_inv_enqueue)
next
  case (Push_wake line)
  with assms show ?thesis
    by (simp add: after_push_def buffer_push_wake_def buffer_push_cases buffer_inv_enqueue)
next
  case Pop
  with assms show ?thesis
    by (simp add: after_pop_def buffer_pop_cases buffer_inv_dequeue)
next
  case Pop_wake
  with assms show ?thesis
    by (simp add: after_pop_def buffer_pop_wake_def buffer_pop_cases buffer_inv_dequeue)
next
  case Shutdown
  with assms show ?thesis
    by (simp add: buffer_signal_shutdown_def buffer_inv_def)
qed

text \<open>
  Claim C1. Take a buffer that \<open>buffer_init\<close> built with a capacity \<open>C > 0\<close>, and any
  interleaving \<open>es\<close> of the critical sections of \<open>buffer_push\<close>, \<open>buffer_pop\<close> and
  \<open>buffer_signal_shutdown\<close>. After every prefix of it, no access was out of bounds,
  \<open>0 \<le> count \<le> C\<close>, the queue holds \<open>count\<close> items, and the lines that are not the
  \<open>NULL\<close> marker have come out of \<open>buffer_pop\<close> in the order in which \<open>buffer_push\<close>
  accepted them: those accepted are those returned followed by those still queued. And
  when the queue is not empty the next \<open>buffer_pop\<close> returns the slot at \<open>head\<close>, which
  is the oldest queued item, and leaves the others in their order.
\<close>

theorem fifo_and_bounds_for_every_interleaving:
  assumes "0 < C" and "int (length arr) = C" and "buffer_init (Some arr) C = Inr b0"
  shows "\<forall>k \<le> length es.
     (let h = run (start b0) (take k es); b = buf h in
        \<not> faulted h \<and> capacity b = C \<and> 0 \<le> count b \<and> count b \<le> C \<and>
        int (length (queue_items b)) = count b \<and>
        payloads (accepted h) = payloads (returned h) @ payloads (queue_items b) \<and>
        (count b \<noteq> 0 \<longrightarrow>
           buffer_pop b = Ret (hd (queue_items b)) (dequeue b) \<and>
           hd (queue_items b) = lines b ! nat (head b) \<and>
           queue_items (dequeue b) = tl (queue_items b)))"
proof (intro allI impI)
  fix k
  define h where "h = run (start b0) (take k es)"
  have b0: "buffer_inv b0" "queue_items b0 = []" "capacity b0 = C"
    using assms by (auto simp: buffer_inv_init queue_items_init buffer_init_def)
  then have inv: "history_inv h"
    unfolding h_def by (intro history_inv_run history_inv_start)
  then have binv: "buffer_inv (buf h)"
    by (simp add: history_inv_def)
  have cap: "capacity (buf h) = C"
    unfolding h_def using b0 by (simp add: capacity_run start_def)
  have bounds: "0 \<le> count (buf h)" "count (buf h) \<le> C"
    using binv cap by (auto simp: buffer_inv_def)
  have nxt: "buffer_pop (buf h) = Ret (hd (queue_items (buf h))) (dequeue (buf h)) \<and>
             hd (queue_items (buf h)) = lines (buf h) ! nat (head (buf h)) \<and>
             queue_items (dequeue (buf h)) = tl (queue_items (buf h))"
    if "count (buf h) \<noteq> 0"
    using that binv queue_items_dequeue [OF binv that] by (simp add: buffer_pop_cases)
  show "let h = run (start b0) (take k es); b = buf h in
        \<not> faulted h \<and> capacity b = C \<and> 0 \<le> count b \<and> count b \<le> C \<and>
        int (length (queue_items b)) = count b \<and>
        payloads (accepted h) = payloads (returned h) @ payloads (queue_items b) \<and>
        (count b \<noteq> 0 \<longrightarrow>
           buffer_pop b = Ret (hd (queue_items b)) (dequeue b) \<and>
           hd (queue_items b) = lines b ! nat (head b) \<and>
           queue_items (dequeue b) = tl (queue_items b))"
    unfolding Let_def h_def [symmetric]
    using inv cap bounds nxt length_queue_items [OF binv] by (simp add: history_inv_def)
qed

theorem fifo_and_bounds_witness:
  "0 < (2::int) \<and> int (length [Some ''junk'', None :: string option]) = 2 \<and>
   buffer_init (Some [Some ''junk'', None]) 2 = Inr demo_buffer \<and>
   5 \<le> length demo_events \<and>
   (let h = run (start demo_buffer) (take 5 demo_events); b = buf h in
      count b = 2 \<and> payloads (accepted h) = [''a'', ''b'', ''c''] \<and>
      payloads (returned h) = [''a''] \<and> queue_items b = [Some ''b'', Some ''c''] \<and>
      buffer_pop b = Ret (Some ''b'') (dequeue b) \<and> queue_items (dequeue b) = [Some ''c''])"
  using fifo_and_bounds_for_every_interleaving
          [of 2 "[Some ''junk'', None]" demo_buffer demo_events, THEN spec, of 5]
  by (simp add: demo_buffer_def demo_events_def run_def start_def after_push_def after_pop_def
        buffer_init_def buffer_push_def buffer_push_wake_def buffer_pop_def enqueue_def
        dequeue_def in_bounds_def c_rem_def queue_items_def slot_def upt_rec)

lemma dequeue_fields:
  assumes "buffer_inv b"
  shows "lines (dequeue b) = (lines b)[nat (head b) := None]"
    and "head (dequeue b) = (head b + 1) mod capacity b"
    and "count (dequeue b) = count b - 1"
    and "tail (dequeue b) = tail b"
    and "capacity (dequeue b) = capacity b"
    and "shutting_down (dequeue b) = shutting_down b"
  using assms by (simp_all add: dequeue_def buffer_inv_def c_rem_mod)

lemma enqueue_fields:
  assumes "buffer_inv b"
  shows "lines (enqueue b line) = (lines b)[nat (tail b) := line]"
    and "tail (enqueue b line) = (tail b + 1) mod capacity b"
    and "count (enqueue b line) = count b + 1"
    and "head (enqueue b line) = head b"
    and "capacity (enqueue b line) = capacity b"
    and "shutting_down (enqueue b line) = shutting_down b"
  using assms by (simp_all add: enqueue_def buffer_inv_def c_rem_mod)

lemma drained_pops:
  assumes "shutting_down (buf h)" "count (buf h) = 0" "only_pops es"
  shows "buf (run h es) = buf h \<and> returned (run h es) = returned h @ replicate (length es) None
         \<and> faulted (run h es) = faulted h"
  using assms unfolding run_def
proof (induction es arbitrary: h)
  case Nil
  then show ?case by simp
next
  case (Cons e es)
  let ?h = "apply_event h e"
  from Cons.prems have e: "e = Pop \<or> e = Pop_wake" and es: "only_pops es"
    by (simp_all add: only_pops_def)
  with Cons.prems have step: "buf ?h = buf h" "returned ?h = returned h @ [None]"
      "faulted ?h = faulted h"
    by (auto simp: after_pop_def buffer_pop_def buffer_pop_wake_def)
  with Cons.prems have "shutting_down (buf ?h)" "count (buf ?h) = 0" by simp_all
  from Cons.IH [OF this es] step show ?case
    by (simp add: replicate_app_Cons_same)
qed

lemmas buffer_defs = buffer_init_def buffer_push_def buffer_push_wake_def buffer_pop_def
  buffer_pop_wake_def buffer_signal_shutdown_def enqueue_def dequeue_def in_bounds_def c_rem_def
  buffer_inv_def
lemmas run_defs = run_def start_def after_push_def after_pop_def queue_items_def slot_def upt_rec

text \<open>
  Claim C4. Once shutdown has been requested and \<open>count\<close> is 0, a call of \<open>buffer_pop\<close>
  returns \<open>NULL\<close> without sleeping, whether it has just taken the lock or comes back from
  \<open>pthread_cond_wait\<close> (where line 82 tests the two conditions again), and leaves the
  buffer as it was, so that any number of such calls all return \<open>NULL\<close>. On a buffer that
  is not empty, \<open>buffer_pop\<close> returns the slot at \<open>head\<close>, the oldest queued item,
  advances \<open>head\<close> by one around the ring and decrements \<open>count\<close>.
\<close>

theorem pop_none_after_drain_else_head:
  "(shutting_down b \<and> count b = 0 \<longrightarrow>
      buffer_pop b = Ret None b \<and> buffer_pop_wake b = Ret None b \<and>
      (\<forall>es. only_pops es \<longrightarrow>
         buf (run (start b) es) = b \<and>
         returned (run (start b) es) = replicate (length es) None)) \<and>
   (buffer_inv b \<and> count b \<noteq> 0 \<longrightarrow>
      buffer_pop b = Ret (lines b ! nat (head b)) (dequeue b) \<and>
      buffer_pop_wake b = Ret (lines b ! nat (head b)) (dequeue b) \<and>
      lines b ! nat (head b) = hd (queue_items b) \<and>
      queue_items (dequeue b) = tl (queue_items b) \<and>
      head (dequeue b) = (head b + 1) mod capacity b \<and>
      count (dequeue b) = count b - 1 \<and>
      tail (dequeue b) = tail b \<and> capacity (dequeue b) = capacity b \<and>
      shutting_down (dequeue b) = shutting_down b \<and>
      lines (dequeue b) = (lines b)[nat (head b) := None])"
proof (intro conjI impI allI)
  assume a: "shutting_down b \<and> count b = 0"
  then show "buffer_pop b = Ret None b" "buffer_pop_wake b = Ret None b"
    by (simp_all add: buffer_pop_def buffer_pop_wake_def)
  fix es :: "'a event list"
  assume "only_pops es"
  with a drained_pops [of "start b" es]
  show "buf (run (start b) es) = b" "returned (run (start b) es) = replicate (length es) None"
    by (simp_all add: start_def)
next
  assume a: "buffer_inv b \<and> count b \<noteq> 0"
  then have inv: "buffer_inv b" and ne: "count b \<noteq> 0" by simp_all
  show "buffer_pop b = Ret (lines b ! nat (head b)) (dequeue b)"
    "buffer_pop_wake b = Ret (lines b ! nat (head b)) (dequeue b)"
    using inv ne by (simp_all add: buffer_pop_wake_def buffer_pop_cases)
  show "lines b ! nat (head b) = hd (queue_items b)"
    "queue_items (dequeue b) = tl (queue_items b)"
    using queue_items_dequeue [OF inv ne] by simp_all
  show "head (dequeue b) = (head b + 1) mod capacity b" "count (dequeue b) = count b - 1"
    "tail (dequeue b) = tail b" "capacity (dequeue b) = capacity b"
    "shutting_down (dequeue b) = shutting_down b"
    "lines (dequeue b) = (lines b)[nat (head b) := None]"
    using dequeue_fields [OF inv] by simp_all
qed

theorem pop_witness:
  "shutting_down shut_buffer \<and> count shut_buffer = 0 \<and>
   buffer_pop shut_buffer = Ret None shut_buffer \<and>
   only_pops [Pop, Pop_wake, Pop :: string event] \<and>
   returned (run (start shut_buffer) [Pop, Pop_wake, Pop]) = [None, None, None] \<and>
   buffer_inv demo_full \<and> count demo_full \<noteq> 0 \<and>
   buffer_pop demo_full =
     Ret (Some ''b'')
       \<lparr>lines = [Some ''c'', None], capacity = 2, count = 1, head = 0, tail = 1,
        shutting_down = False\<rparr>"
  using pop_none_after_drain_else_head [of shut_buffer]
    pop_none_after_drain_else_head [of demo_full]
  by (simp add: shut_buffer_def demo_buffer_def demo_full_def buffer_defs only_pops_def)

text \<open>
  Claim C3, as stated, fails: after a shutdown request a call of \<open>buffer_push\<close> that
  finds room in the buffer stores its line and returns \<open>true\<close>. The test of
  \<open>shutting_down\<close> at line 51 is inside the loop that runs only while the buffer is
  full.
\<close>

theorem push_after_shutdown_counterexample:
  "shutting_down shut_buffer \<and> buffer_inv shut_buffer \<and>
   buf (run (start demo_buffer) [Shutdown]) = shut_buffer \<and>
   buffer_push shut_buffer (Some ''late'') =
     Ret True
       \<lparr>lines = [Some ''late'', None], capacity = 2, count = 1, head = 0, tail = 1,
        shutting_down = True\<rparr> \<and>
   buffer_push shut_buffer (Some ''late'') \<noteq> Ret False shut_buffer"
  by (simp add: shut_buffer_def demo_buffer_def buffer_defs run_defs)

text \<open>
  Claim C3, amended. Once shutdown has been requested \<open>buffer_push\<close> never sleeps. It
  returns \<open>false\<close> and leaves the buffer as it was when the buffer is full, and when the
  call had been sleeping and wakes up to find the request (line 57); a call that takes
  the lock and finds room stores the line and returns \<open>true\<close> although shutdown has
  been requested. Without a shutdown request \<open>buffer_push\<close> sleeps exactly when
  \<open>count = capacity\<close>. Whenever it returns \<open>true\<close> it has stored the line at \<open>tail\<close>,
  advanced \<open>tail\<close> by one around the ring and incremented \<open>count\<close>, which puts the line
  behind the queued items.
\<close>

theorem push_under_shutdown_and_without:
  assumes "buffer_inv b"
  shows "(shutting_down b \<longrightarrow>
            buffer_push b line \<noteq> Blocked \<and>
            buffer_push_wake b line = Ret False b \<and>
            (count b = capacity b \<longrightarrow> buffer_push b line = Ret False b) \<and>
            (count b \<noteq> capacity b \<longrightarrow> buffer_push b line = Ret True (enqueue b line))) \<and>
         (\<not> shutting_down b \<longrightarrow>
            (buffer_push b line = Blocked \<longleftrightarrow> count b = capacity b) \<and>
            (buffer_push_wake b line = Blocked \<longleftrightarrow> count b = capacity b) \<and>
            (count b \<noteq> capacity b \<longrightarrow>
               buffer_push b line = Ret True (enqueue b line) \<and>
               buffer_push_wake b line = Ret True (enqueue b line))) \<and>
         (count b \<noteq> capacity b \<longrightarrow>
            lines (enqueue b line) = (lines b)[nat (tail b) := line] \<and>
            tail (enqueue b line) = (tail b + 1) mod capacity b \<and>
            count (enqueue b line) = count b + 1 \<and>
            head (enqueue b line) = head b \<and> capacity (enqueue b line) = capacity b \<and>
            shutting_down (enqueue b line) = shutting_down b \<and>
            queue_items (enqueue b line) = queue_items b @ [line])"
  using assms enqueue_fields [OF assms, of line] queue_items_enqueue [OF assms, of line]
  by (simp add: buffer_push_wake_def buffer_push_cases)

theorem push_witness:
  "buffer_inv shut_buffer \<and> shutting_down shut_buffer \<and> count shut_buffer \<noteq> capacity shut_buffer \<and>
   buffer_push shut_buffer (Some ''x'') = Ret True (enqueue shut_buffer (Some ''x'')) \<and>
   queue_items (enqueue shut_buffer (Some ''x'')) = [Some ''x''] \<and>
   buffer_inv demo_full \<and> \<not> shutting_down demo_full \<and> count demo_full = capacity demo_full \<and>
   buffer_push demo_full (Some ''x'') = Blocked \<and>
   buffer_push (buffer_signal_shutdown demo_full) (Some ''x'')
     = Ret False (buffer_signal_shutdown demo_full) \<and>
   buffer_inv demo_buffer \<and> \<not> shutting_down demo_buffer \<and>
   buffer_push demo_buffer (Some ''x'') =
     Ret True \<lparr>lines = [Some ''x'', None], capacity = 2, count = 1, head = 0, tail = 1,
               shutting_down = False\<rparr>"
  using push_under_shutdown_and_without [of shut_buffer "Some ''x''"]
    push_under_shutdown_and_without [of demo_full "Some ''x''"]
    push_under_shutdown_and_without [of "buffer_signal_shutdown demo_full" "Some ''x''"]
    push_under_shutdown_and_without [of demo_buffer "Some ''x''"]
  by (simp add: shut_buffer_def demo_buffer_def demo_full_def buffer_defs run_defs)

text \<open>
  Claim C6, as stated, fails: the end-of-input marker is the \<open>NULL\<close> pointer, and
  \<open>buffer_pop\<close> returns \<open>NULL\<close> to its caller both when it takes a marker out of the queue
  and when the queue is empty after a shutdown request.
\<close>

theorem marker_same_as_none_counterexample:
  "buffer_push demo_buffer None = Ret True marker_buffer \<and>
   returned_value (buffer_pop marker_buffer) = Some None \<and>
   shutting_down shut_buffer \<and> count shut_buffer = 0 \<and>
   returned_value (buffer_pop shut_buffer) = Some None \<and>
   returned_value (buffer_pop marker_buffer) = returned_value (buffer_pop shut_buffer)"
  by (simp add: marker_buffer_def shut_buffer_def demo_buffer_def buffer_defs returned_value_def)

text \<open>
  Claim C6, amended. The marker is a payload for the queue: \<open>buffer_push\<close> accepts
  \<open>NULL\<close> like any line, and it takes a slot and its turn in the queue. For the caller of
  \<open>buffer_pop\<close> it is the same value as the result for an empty queue after a shutdown
  request: both calls return \<open>NULL\<close>, and the loop of the worker ends on it with the count
  it has. The two cases differ in the queue only: taking out a marker decrements
  \<open>count\<close>, the other call changes nothing.
\<close>

theorem marker_is_payload_but_returns_null:
  assumes "buffer_inv b"
  shows "(count b \<noteq> capacity b \<longrightarrow>
            buffer_push b None = Ret True (enqueue b None) \<and>
            queue_items (enqueue b None) = queue_items b @ [None] \<and>
            count (enqueue b None) = count b + 1) \<and>
         (count b \<noteq> 0 \<and> hd (queue_items b) = None \<longrightarrow>
            buffer_pop b = Ret None (dequeue b) \<and> count (dequeue b) = count b - 1 \<and>
            queue_items (dequeue b) = tl (queue_items b)) \<and>
         (count b = 0 \<and> shutting_down b \<longrightarrow> buffer_pop b = Ret None b) \<and>
         (count b \<noteq> 0 \<and> hd (queue_items b) = None \<or> count b = 0 \<and> shutting_down b \<longrightarrow>
            returned_value (buffer_pop b) = Some None \<and>
            returned_value (buffer_pop_wake b) = Some None \<and>
            worker_loop search_term m (the (returned_value (buffer_pop b)) # rest) = Some m)"
proof -
  have "buffer_pop b = Ret None (dequeue b) \<and> count (dequeue b) = count b - 1 \<and>
        queue_items (dequeue b) = tl (queue_items b)"
    if "count b \<noteq> 0" "hd (queue_items b) = None"
    using that queue_items_dequeue [OF assms that(1)] dequeue_fields [OF assms]
    by (simp add: buffer_pop_cases [OF assms])
  moreover have "buffer_pop b = Ret None b" if "count b = 0" "shutting_down b"
    using that by (simp add: buffer_pop_def)
  ultimately show ?thesis
    using assms enqueue_fields [OF assms, of None] queue_items_enqueue [OF assms, of None]
    by (auto simp: buffer_push_cases buffer_pop_wake_def returned_value_def)
qed

theorem marker_witness:
  "buffer_inv marker_buffer \<and> count marker_buffer \<noteq> capacity marker_buffer \<and>
   count marker_buffer \<noteq> 0 \<and> hd (queue_items marker_buffer) = None \<and>
   buffer_pop marker_buffer = Ret None (dequeue marker_buffer) \<and>
   count (dequeue marker_buffer) = 0 \<and>
   buffer_inv shut_buffer \<and> count shut_buffer = 0 \<and> shutting_down shut_buffer \<and>
   buffer_pop shut_buffer = Ret None shut_buffer \<and>
   worker_loop ''match'' 3 (the (returned_value (buffer_pop marker_buffer)) # []) = Some 3 \<and>
   worker_loop ''match'' 3 (the (returned_value (buffer_pop shut_buffer)) # []) = Some 3"
  using marker_is_payload_but_returns_null [of marker_buffer "''match''" 3 "[]"]
    marker_is_payload_but_returns_null [of shut_buffer "''match''" 3 "[]"]
  by (simp add: marker_buffer_def shut_buffer_def demo_buffer_def buffer_defs run_defs returned_value_def)

subsection \<open>Arithmetic of \<open>int\<close>\<close>

lemma int32_id: "INT_MIN \<le> x \<Longrightarrow> x \<le> INT_MAX \<Longrightarrow> int32 x = x"
  by (simp add: int32_def INT_MIN_def INT_MAX_def)

lemma int32_range: "INT_MIN \<le> int32 x \<and> int32 x \<le> INT_MAX"
proof -
  have "0 \<le> (x + 2147483648) mod 4294967296" "(x + 2147483648) mod 4294967296 < 4294967296"
    by simp_all
  then show ?thesis by (simp add: int32_def INT_MIN_def INT_MAX_def)
qed

lemma int32_add_left: "int32 (int32 a + b) = int32 (a + b)"
proof -
  have "((a + 2147483648) mod 4294967296 + b) mod 4294967296
          = (a + 2147483648 + b) mod (4294967296 :: int)"
    by (rule mod_add_left_eq)
  then show ?thesis by (simp add: int32_def algebra_simps)
qed


lemma c_add_exact: "INT_MIN \<le> a + b \<Longrightarrow> a + b \<le> INT_MAX \<Longrightarrow> c_add a b = a + b"
  by (simp add: c_add_def int32_id)

subsection \<open>Tear-down\<close>

text \<open>
  \<open>buffer_destroy\<close> frees the queued lines as long as \<open>head + i\<close> fits an \<open>int\<close> for the
  queued positions; where it does not, the index computed is negative and the access is
  outside the array.
\<close>

lemma destroy_loop_items:
  "buffer_inv b \<Longrightarrow> 0 \<le> i \<Longrightarrow> i \<le> count b \<Longrightarrow> head b + count b \<le> INT_MAX + 1 \<Longrightarrow>
   destroy_loop b i freed = Some (freed @ payloads (map (slot b) [nat i..<nat (count b)]))"
proof (induction b i freed rule: destroy_loop.induct)
  case (1 b i freed)
  show ?case
  proof (cases "i < count b")
    case False
    with "1.prems" show ?thesis by (subst destroy_loop.simps) simp
  next
    case True
    from "1.prems" have c: "0 < capacity b" "0 \<le> head b" "int (length (lines b)) = capacity b"
      by (simp_all add: buffer_inv_def)
    have sum: "c_add (head b) i = head b + i"
      using c True "1.prems" by (intro c_add_exact) (simp_all add: INT_MIN_def)
    let ?idx = "c_rem (c_add (head b) i) (capacity b)"
    have idx: "?idx = (head b + int (nat i)) mod capacity b"
      using c "1.prems" by (simp add: sum c_rem_mod)
    have ib: "in_bounds b ?idx"
      using c by (simp add: idx in_bounds_def)
    have sl: "lines b ! nat ?idx = slot b (nat i)"
      by (simp add: idx slot_def)
    have up: "[nat i..<nat (count b)] = nat i # [nat (i + 1)..<nat (count b)]"
      using True "1.prems" by (simp add: upt_conv_Cons nat_add_distrib)
    have next_ok: "0 \<le> i + 1" "i + 1 \<le> count b"
      using True "1.prems" by simp_all
    show ?thesis
    proof (cases "lines b ! nat ?idx")
      case None
      from "1.IH"(1) [OF True refl _ None "1.prems"(1) next_ok "1.prems"(4)] ib c
      have "destroy_loop b (i + 1) freed =
              Some (freed @ payloads (map (slot b) [nat (i + 1)..<nat (count b)]))"
        by simp
      then show ?thesis
        using True ib c None sl by (subst destroy_loop.simps) (simp add: up)
    next
      case (Some p)
      from "1.IH"(2) [OF True refl _ Some "1.prems"(1) next_ok "1.prems"(4)] ib c
      have "destroy_loop b (i + 1) (freed @ [p]) =
              Some ((freed @ [p]) @ payloads (map (slot b) [nat (i + 1)..<nat (count b)]))"
        by simp
      then show ?thesis
        using True ib c Some sl by (subst destroy_loop.simps) (simp add: up)
    qed
  qed
qed

lemma buffer_destroy_items:
  "buffer_inv b \<Longrightarrow> head b + count b \<le> INT_MAX + 1 \<Longrightarrow>
   buffer_destroy b = Some (payloads (queue_items b))"
  using destroy_loop_items [of b 0 "[]"]
  by (simp add: buffer_destroy_def queue_items_def buffer_inv_def)








text \<open>
  For capacities up to \<open>2 ^ 30\<close> the sum \<open>head + i\<close> cannot overflow: after any
  interleaving \<open>buffer_destroy\<close> frees exactly the queued lines, and the lines accepted are
  those returned followed by those freed.
\<close>

lemma lines_returned_or_freed_once_small_capacity:
  assumes "0 < C" and "C \<le> 1073741824" and "int (length arr) = C"
    and "buffer_init (Some arr) C = Inr b0"
  shows "let h = run (start b0) es; freed = payloads (queue_items (buf h)) in
           buffer_destroy (buf h) = Some freed \<and>
           payloads (accepted h) = payloads (returned h) @ freed"
proof -
  define h where "h = run (start b0) es"
  have b0: "buffer_inv b0" "queue_items b0 = []" "capacity b0 = C"
    using assms by (auto simp: buffer_inv_init queue_items_init buffer_init_def)
  then have inv: "history_inv h"
    unfolding h_def by (intro history_inv_run history_inv_start)
  have cap: "capacity (buf h) = C"
    unfolding h_def using b0 by (simp add: capacity_run start_def)
  from inv have b: "buffer_inv (buf h)" by (simp add: history_inv_def)
  then have "head (buf h) + count (buf h) \<le> INT_MAX + 1"
    using cap assms(2) by (simp add: buffer_inv_def INT_MAX_def)
  from buffer_destroy_items [OF b this] inv show ?thesis
    unfolding Let_def h_def [symmetric] by (simp add: history_inv_def)
qed


section \<open>Properties of the worker loop\<close>

lemma strstr_sublist: "strstr haystack needle = None \<longleftrightarrow> \<not> sublist needle haystack"
  by (induction haystack) (auto simp: sublist_Cons_right)













section \<open>Properties of the manager\<close>

lemma getline_record:
  assumes "getline rest = Some (bytes, rest')"
  shows "bytes \<noteq> []" and "rest = bytes @ rest'" and "newline \<notin> set (butlast bytes)"
proof -
  let ?a = "takeWhile (\<lambda>c. c \<noteq> newline) rest"
  let ?d = "dropWhile (\<lambda>c. c \<noteq> newline) rest"
  have ne: "rest \<noteq> []" using assms by (auto simp: getline_def split: if_splits)
  have a: "newline \<notin> set ?a" by (auto dest: set_takeWhileD)
  have "bytes \<noteq> [] \<and> rest = bytes @ rest' \<and> newline \<notin> set (butlast bytes)"
  proof (cases ?d)
    case Nil
    have "bytes = rest" "rest' = []"
      using assms ne unfolding getline_def Nil by simp_all
    moreover from Nil have "?a = rest"
      by (simp add: dropWhile_eq_Nil_conv takeWhile_eq_all_conv)
    ultimately show ?thesis
      using ne a by (auto dest: in_set_butlastD)
  next
    case (Cons c d')
    then have b: "bytes = ?a @ [c]" "rest' = d'"
      using assms ne by (auto simp: getline_def)
    have "rest = ?a @ ?d" by simp
    then show ?thesis
      using b a Cons by simp
  qed
  then show "bytes \<noteq> []" "rest = bytes @ rest'" "newline \<notin> set (butlast bytes)"
    by simp_all
qed

lemma NUL_not_newline: "NUL \<noteq> newline"
  by (simp add: NUL_def newline_def)

lemma strip_newline_cases:
  "strip_newline bytes =
     (if bytes \<noteq> [] \<and> last bytes = newline then butlast bytes @ [NUL] else bytes)"
proof (cases bytes rule: rev_cases)
  case Nil
  then show ?thesis by (simp add: strip_newline_def)
next
  case (snoc bs c)
  then show ?thesis by (simp add: strip_newline_def Let_def nth_append)
qed

lemma c_string_no_NUL: "NUL \<notin> set bs \<Longrightarrow> c_string bs = bs"
  by (auto simp: c_string_def takeWhile_eq_all_conv)

lemma c_string_append_NUL: "c_string (bs @ [NUL]) = c_string bs"
  by (induction bs) (simp_all add: c_string_def)

lemma c_string_snoc:
  "c \<noteq> NUL \<Longrightarrow> c_string (bs @ [c]) = (if NUL \<in> set bs then c_string bs else bs @ [c])"
  by (induction bs) (simp_all add: c_string_def)

lemma line_to_push_cases:
  "c_string bytes = line_to_push bytes \<or> c_string bytes = line_to_push bytes @ [newline]"
proof (cases "bytes \<noteq> [] \<and> last bytes = newline")
  case False
  then have "strip_newline bytes = bytes" by (auto simp: strip_newline_cases)
  then show ?thesis by (simp add: line_to_push_def)
next
  case True
  then have b: "bytes = butlast bytes @ [newline]" by (metis append_butlast_last_id)
  have "c_string bytes =
      (if NUL \<in> set (butlast bytes) then c_string (butlast bytes) else butlast bytes @ [newline])"
    using c_string_snoc [of newline "butlast bytes"] b NUL_not_newline by metis
  moreover have "line_to_push bytes = c_string (butlast bytes)"
    using True by (simp add: line_to_push_def strip_newline_cases c_string_append_NUL)
  ultimately show ?thesis
    by (auto simp: c_string_no_NUL)
qed

lemma line_to_push_plain:
  "NUL \<notin> set bytes \<Longrightarrow>
   line_to_push bytes = (if bytes \<noteq> [] \<and> last bytes = newline then butlast bytes else bytes)"
proof (cases "bytes \<noteq> [] \<and> last bytes = newline")
  case True
  assume "NUL \<notin> set bytes"
  then have "NUL \<notin> set (butlast bytes)" by (auto dest: in_set_butlastD)
  then show ?thesis
    using True by (simp add: line_to_push_def strip_newline_cases c_string_append_NUL c_string_no_NUL)
next
  case False
  assume "NUL \<notin> set bytes"
  moreover from False have "strip_newline bytes = bytes" by (auto simp: strip_newline_cases)
  ultimately show ?thesis
    using False by (auto simp: line_to_push_def c_string_no_NUL)
qed

lemma set_c_string: "set (c_string bs) \<subseteq> set bs"
  by (auto simp: c_string_def dest: set_takeWhileD)

lemma line_to_push_no_newline:
  assumes "newline \<notin> set (butlast bytes)"
  shows "newline \<notin> set (line_to_push bytes)"
proof -
  have "newline \<notin> set (strip_newline bytes)"
  proof (cases "bytes \<noteq> [] \<and> last bytes = newline")
    case True
    then show ?thesis using assms NUL_not_newline by (simp add: strip_newline_cases)
  next
    case False
    then have "bytes = [] \<or> bytes = butlast bytes @ [last bytes] \<and> last bytes \<noteq> newline"
      by auto
    then have "newline \<notin> set bytes"
      using assms by (metis Un_iff empty_iff empty_set set_ConsD set_append)
    moreover from False have "strip_newline bytes = bytes" by (auto simp: strip_newline_cases)
    ultimately show ?thesis by simp
  qed
  then show ?thesis
    using set_c_string [of "strip_newline bytes"] by (auto simp: line_to_push_def)
qed

lemma strstr_needs_chars:
  assumes "c \<in> set needle" "c \<notin> set haystack"
  shows "strstr haystack needle = None"
proof -
  have "\<not> sublist needle haystack"
    using assms by (auto simp: sublist_def)
  then show ?thesis by (simp add: strstr_sublist)
qed

lemma returned_among_accepted:
  assumes "history_inv h"
  shows "set (payloads (returned h)) \<subseteq> set (payloads (accepted h))"
  using assms by (auto simp: history_inv_def)

text \<open>
  Claim C9. For a record that \<open>getline\<close> read, the string that the manager pushes is the
  record as a C string without its final newline if it had one: at most one character
  is removed, and it is a newline at the end. The pushed string contains no newline at
  all, so a search term that ends in a newline is not found in it and the worker's
  count does not move. Unless \<open>SIGINT\<close> was seen, the manager calls \<open>buffer_push\<close> with
  exactly this string. And lines without newline going into the buffer, the lines that
  \<open>buffer_pop\<close> returns to the workers are without newline too.
\<close>

theorem one_newline_stripped_before_push:
  assumes "getline rest = Some (bytes, rest')"
  shows "(c_string bytes = line_to_push bytes \<or>
          c_string bytes = line_to_push bytes @ [newline]) \<and>
         (NUL \<notin> set bytes \<longrightarrow>
            line_to_push bytes =
              (if last bytes = newline then butlast bytes else bytes)) \<and>
         newline \<notin> set (line_to_push bytes) \<and>
         manager_iteration False b bytes = Inr (buffer_push b (Some (line_to_push bytes))) \<and>
         manager_iteration True b bytes = Inl (buffer_signal_shutdown b) \<and>
         (search_term \<noteq> [] \<and> last search_term = newline \<longrightarrow>
            strstr (line_to_push bytes) search_term = None \<and>
            worker_loop search_term m (Some (line_to_push bytes) # pops) =
              worker_loop search_term m pops) \<and>
         (0 < C \<and> int (length arr) = C \<and> buffer_init (Some arr) C = Inr b0 \<and>
          (\<forall>l \<in> set (payloads (accepted (run (start b0) es))). newline \<notin> set l) \<longrightarrow>
            (\<forall>l \<in> set (payloads (returned (run (start b0) es))). newline \<notin> set l))"
proof -
  note r = getline_record [OF assms]
  have link: "\<forall>l \<in> set (payloads (returned (run (start b0) es))). newline \<notin> set l"
    if "0 < C" "int (length arr) = C" "buffer_init (Some arr) C = Inr b0"
      "\<forall>l \<in> set (payloads (accepted (run (start b0) es))). newline \<notin> set l"
  proof -
    have "history_inv (run (start b0) es)"
      using that by (intro history_inv_run history_inv_start buffer_inv_init queue_items_init)
    from returned_among_accepted [OF this] that(4) show ?thesis by blast
  qed
  have nl: "newline \<notin> set (line_to_push bytes)"
    using r(3) by (rule line_to_push_no_newline)
  have "strstr (line_to_push bytes) search_term = None"
    if "search_term \<noteq> []" "last search_term = newline"
    using that nl strstr_needs_chars [of newline search_term "line_to_push bytes"]
    by (metis last_in_set)
  then show ?thesis
    using nl r(1) line_to_push_cases [of bytes] line_to_push_plain [of bytes] link
    by (simp add: manager_iteration_def)
qed

theorem newline_witness:
  "getline (''ab'' @ [newline] @ ''cd'') = Some (''ab'' @ [newline], ''cd'') \<and>
   line_to_push (''ab'' @ [newline]) = ''ab'' \<and>
   NUL \<notin> set (''ab'' @ [newline]) \<and>
   ''b'' @ [newline] \<noteq> [] \<and> last (''b'' @ [newline]) = newline \<and>
   strstr (line_to_push (''ab'' @ [newline])) (''b'' @ [newline]) = None \<and>
   strstr (line_to_push (''ab'' @ [newline])) ''b'' = Some 1 \<and>
   0 < (2::int) \<and> int (length [Some ''junk'', None :: string option]) = 2 \<and>
   buffer_init (Some [Some ''junk'', None]) 2 = Inr demo_buffer \<and>
   payloads (accepted (run (start demo_buffer) demo_events)) = [''a'', ''b'', ''c''] \<and>
   list_all (\<lambda>l. newline \<notin> set l)
     (payloads (accepted (run (start demo_buffer) demo_events))) \<and>
   payloads (returned (run (start demo_buffer) demo_events)) = [''a'', ''b'', ''c''] \<and>
   list_all (\<lambda>l. newline \<notin> set l)
     (payloads (returned (run (start demo_buffer) demo_events)))"
proof -
  have g: "getline (''ab'' @ [newline] @ ''cd'') = Some (''ab'' @ [newline], ''cd'')"
    by (simp add: getline_def newline_def)
  have r: "run (start demo_buffer) demo_events =
      \<lparr>buf = \<lparr>lines = [None, None], capacity = 2, count = 0, head = 1, tail = 1,
               shutting_down = True\<rparr>,
       accepted = [Some ''a'', Some ''b'', Some ''c''],
       returned = [Some ''a'', Some ''b'', Some ''c'', None], faulted = False\<rparr>"
    by code_simp
  have i: "buffer_init (Some [Some ''junk'', None]) 2 = Inr demo_buffer"
    by (simp add: buffer_init_def demo_buffer_def)
  show ?thesis
    using one_newline_stripped_before_push
      [OF g, of demo_buffer "''b'' @ [newline]" 0 "[]" 2 "[Some ''junk'', None]" demo_buffer
         demo_events]
    by (simp add: getline_def r i line_to_push_def strip_newline_def c_string_def NUL_def
         newline_def)
qed

text \<open>
  Claim C8. When \<open>malloc\<close> fails in \<open>buffer_init\<close> the process ends there with
  \<open>EXIT_FAILURE\<close> after a message, and no buffer comes back to \<open>main\<close>. When that
  allocation or the \<open>calloc\<close> of the counters fails, the start-up of \<open>main\<close> ends the
  process with \<open>EXIT_FAILURE\<close> and a message, and nothing after line 146 runs. The
  start-up hands a buffer on only if both allocations succeeded, and then every field of
  the buffer is set and the counters are zero.
\<close>

theorem allocation_failure_ends_the_run:
  "buffer_init None cap = Inl (Halt EXIT_FAILURE [''Failed to allocate buffer lines array'']) \<and>
   (\<forall>b :: 'a buffer. buffer_init None cap \<noteq> Inr b) \<and>
   (lines_mem = None \<or> \<not> counts_mem \<longrightarrow>
      (\<exists>h. main_setup lines_mem barrier_ok counts_mem cap n = Inl h \<and>
           status h = EXIT_FAILURE \<and> stderr h \<noteq> [])) \<and>
   (\<forall>b cs. main_setup lines_mem barrier_ok counts_mem cap n = Inr (b, cs) \<longrightarrow>
      lines_mem = Some (lines b) \<and> counts_mem \<and> barrier_ok \<and>
      capacity b = cap \<and> count b = 0 \<and> head b = 0 \<and> tail b = 0 \<and> \<not> shutting_down b \<and>
      cs = replicate (nat n) 0)"
  by (auto simp: main_setup_def buffer_init_def split: option.splits)

theorem allocation_failure_witness:
  "main_setup (None :: string option list option) True True 2 2
     = Inl (Halt EXIT_FAILURE [''Failed to allocate buffer lines array'']) \<and>
   main_setup (Some [None, None :: string option]) True False 2 2
     = Inl (Halt EXIT_FAILURE [''calloc for worker_match_counts failed'']) \<and>
   main_setup (Some [Some ''junk'', None]) True True 2 2 = Inr (demo_buffer, [0, 0])"
  using allocation_failure_ends_the_run [of 2 "None :: string option list option" True True 2]
    allocation_failure_ends_the_run [of 2 "Some [None, None :: string option]" False True 2]
    allocation_failure_ends_the_run [of 2 "Some [Some ''junk'', None]" True True 2]
  by (simp add: main_setup_def buffer_init_def demo_buffer_def numeral_2_eq_2)

section \<open>Properties of the barrier and the summary\<close>

lemma length_filter_update:
  "t < length xs \<Longrightarrow>
   length (filter P (xs[t := y])) + (if P (xs ! t) then 1 else 0)
     = length (filter P xs) + (if P y then 1 else 0)"
proof (induction xs arbitrary: t)
  case Nil
  then show ?case by simp
next
  case (Cons x xs)
  then show ?case by (cases t) auto
qed

lemma filter_all:
  assumes "length (filter P xs) = length xs" "t < length xs"
  shows "P (xs ! t)"
proof (rule ccontr)
  assume "\<not> P (xs ! t)"
  with assms(2) have "length (filter P xs) < length xs"
    by (intro length_filter_less [of "xs ! t"]) simp_all
  with assms(1) show False by simp
qed

lemma summary_loop_sum:
  "summary_loop cs n i acc = (if i < n then int32 (acc + (\<Sum>t = i..<n. cs ! t)) else acc)"
proof (induction cs n i acc rule: summary_loop.induct)
  case (1 cs n i acc)
  show ?case
  proof (cases "i < n")
    case True
    with "1.IH" have ih: "summary_loop cs n (i + 1) (c_add acc (cs ! i)) =
        (if i + 1 < n then int32 (c_add acc (cs ! i) + (\<Sum>t = i + 1..<n. cs ! t))
         else c_add acc (cs ! i))"
      by simp
    have split: "(\<Sum>t = i..<n. cs ! t) = cs ! i + (\<Sum>t = i + 1..<n. cs ! t)"
      using True by (simp add: sum.atLeast_Suc_lessThan)
    show ?thesis
    proof (cases "i + 1 < n")
      case more: True
      have "int32 (c_add acc (cs ! i) + (\<Sum>t = i + 1..<n. cs ! t))
              = int32 (acc + cs ! i + (\<Sum>t = i + 1..<n. cs ! t))"
        unfolding c_add_def by (rule int32_add_left)
      with ih more True show ?thesis
        by (subst summary_loop.simps) (simp add: split add.assoc)
    next
      case last: False
      with True have "(\<Sum>t = i + 1..<n. cs ! t) = 0" by simp
      with ih last True show ?thesis
        by (subst summary_loop.simps) (simp add: split c_add_def)
    qed
  next
    case False
    then show ?thesis by (subst summary_loop.simps) simp
  qed
qed

lemma pool_inv_init: "serial < n \<Longrightarrow> pool_inv local n serial (pool_init n)"
  by (simp add: pool_inv_def pool_init_def entered_def)

lemma pool_invI:
  assumes "length (pcs s) = n" "length (counts s) = n"
    "arrived s = length (filter entered (pcs s))"
    "\<And>t. t < n \<Longrightarrow> counts s ! t = (if pcs s ! t = At_store then 0 else local t)"
    "Finished \<in> set (pcs s) \<Longrightarrow> arrived s = n"
    "summed_by s = (if pcs s ! serial = Finished then [serial] else [])"
    "total_matches s = (if pcs s ! serial = Finished then int32 (\<Sum>t<n. local t) else 0)"
    "barrier_errors s = []"
  shows "pool_inv local n serial s"
  unfolding pool_inv_def using assms by blast

lemma nth_update_Finished:
  "t < length xs \<Longrightarrow> xs ! t \<noteq> Finished \<Longrightarrow> q \<noteq> Finished \<Longrightarrow>
   (xs[t := q] ! u = Finished) = (xs ! u = Finished)"
  by (cases "u = t") simp_all

lemma set_update_Finished:
  assumes "Finished \<in> set (xs[t := q])" "q \<noteq> Finished"
  shows "Finished \<in> set xs"
proof -
  have "set (xs[t := q]) \<subseteq> insert q (set xs)"
    by (rule set_update_subset_insert)
  with assms show ?thesis by auto
qed

lemma pool_inv_step:
  assumes inv: "pool_inv local n serial s" and ser: "serial < n"
  shows "pool_inv local n serial (pool_step local n serial s t)"
proof (cases "t < n")
  case False
  with inv have "pool_step local n serial s t = s"
    by (simp add: pool_step_def pool_inv_def)
  with inv show ?thesis by simp
next
  case True
  from inv have len: "length (pcs s) = n" "length (counts s) = n"
    and arr: "arrived s = length (filter entered (pcs s))"
    and cnt: "\<And>u. u < n \<Longrightarrow> counts s ! u = (if pcs s ! u = At_store then 0 else local u)"
    and fin: "Finished \<in> set (pcs s) \<Longrightarrow> arrived s = n"
    and sm: "summed_by s = (if pcs s ! serial = Finished then [serial] else [])"
    and tot: "total_matches s = (if pcs s ! serial = Finished then int32 (\<Sum>t<n. local t) else 0)"
    and err: "barrier_errors s = []"
    unfolding pool_inv_def by blast+
  have tl: "t < length (pcs s)" "t < length (counts s)" using True len by simp_all
  note upd = length_filter_update [OF tl(1), of entered]
  show ?thesis
  proof (cases "pcs s ! t")
    case At_store
    define s' where "s' = s\<lparr>counts := store (counts s) (t, local t), pcs := (pcs s)[t := At_barrier]\<rparr>"
    have step: "pool_step local n serial s t = s'"
      using At_store tl by (simp add: pool_step_def s'_def)
    have f: "(pcs s' ! u = Finished) = (pcs s ! u = Finished)" for u
      unfolding s'_def using nth_update_Finished [OF tl(1), of At_barrier u] At_store by simp
    have "pool_inv local n serial s'"
    proof (rule pool_invI)
      show "length (pcs s') = n" "length (counts s') = n"
        using len by (simp_all add: s'_def store_def)
      show "arrived s' = length (filter entered (pcs s'))"
        using upd [of At_barrier] At_store arr by (simp add: s'_def entered_def)
      show "counts s' ! u = (if pcs s' ! u = At_store then 0 else local u)" if "u < n" for u
        using cnt [OF that] tl that len by (cases "u = t") (simp_all add: s'_def store_def)
      show "arrived s' = n" if "Finished \<in> set (pcs s')"
      proof -
        from that have "Finished \<in> set (pcs s)"
          unfolding s'_def by (simp add: set_update_Finished)
        from fin [OF this] show ?thesis by (simp add: s'_def)
      qed
      show "summed_by s' = (if pcs s' ! serial = Finished then [serial] else [])"
        unfolding f using sm by (simp add: s'_def)
      show "total_matches s' = (if pcs s' ! serial = Finished then int32 (\<Sum>t<n. local t) else 0)"
        unfolding f using tot by (simp add: s'_def)
      show "barrier_errors s' = []" using err by (simp add: s'_def)
    qed
    then show ?thesis by (simp add: step)
  next
    case At_barrier
    define s' where "s' = s\<lparr>arrived := arrived s + 1, pcs := (pcs s)[t := In_barrier]\<rparr>"
    have step: "pool_step local n serial s t = s'"
      using At_barrier tl by (simp add: pool_step_def s'_def)
    have f: "(pcs s' ! u = Finished) = (pcs s ! u = Finished)" for u
      unfolding s'_def using nth_update_Finished [OF tl(1), of In_barrier u] At_barrier by simp
    have "pool_inv local n serial s'"
    proof (rule pool_invI)
      show "length (pcs s') = n" "length (counts s') = n"
        using len by (simp_all add: s'_def)
      show a: "arrived s' = length (filter entered (pcs s'))"
        using upd [of In_barrier] At_barrier arr by (simp add: s'_def entered_def)
      show "counts s' ! u = (if pcs s' ! u = At_store then 0 else local u)" if "u < n" for u
        using cnt [OF that] tl that At_barrier by (cases "u = t") (simp_all add: s'_def)
      show "arrived s' = n" if "Finished \<in> set (pcs s')"
      proof -
        from that have "Finished \<in> set (pcs s)"
          unfolding s'_def by (simp add: set_update_Finished)
        from fin [OF this] have "arrived s' = n + 1" by (simp add: s'_def)
        moreover have "length (filter entered (pcs s')) \<le> length (pcs s')"
          by (rule length_filter_le)
        moreover have "length (pcs s') = n"
          using len by (simp add: s'_def)
        ultimately show ?thesis using a by simp
      qed
      show "summed_by s' = (if pcs s' ! serial = Finished then [serial] else [])"
        unfolding f using sm by (simp add: s'_def)
      show "total_matches s' = (if pcs s' ! serial = Finished then int32 (\<Sum>t<n. local t) else 0)"
        unfolding f using tot by (simp add: s'_def)
      show "barrier_errors s' = []" using err by (simp add: s'_def)
    qed
    then show ?thesis by (simp add: step)
  next
    case Finished
    with True len have "pool_step local n serial s t = s"
      by (simp add: pool_step_def)
    with inv show ?thesis by simp
  next
    case In_barrier
    show ?thesis
    proof (cases "arrived s < n")
      case True
      with In_barrier tl have "pool_step local n serial s t = s"
        by (simp add: pool_step_def)
      with inv show ?thesis by simp
    next
      case False
      have "length (filter entered (pcs s)) \<le> length (pcs s)"
        by (rule length_filter_le)
      then have "arrived s \<le> n" using arr len by simp
      with False have full: "arrived s = n" by simp
      then have all: "entered (pcs s ! u)" if "u < n" for u
        using filter_all [of entered "pcs s" u] arr len that by simp
      have written: "counts s ! u = local u" if "u < n" for u
        using cnt [OF that] all [OF that] by (auto simp: entered_def)
      have "(\<Sum>u = 0..<n. counts s ! u) = (\<Sum>u = 0..<n. local u)"
        by (rule sum.cong) (simp_all add: written)
      then have sum: "summary_loop (counts s) n 0 0 = int32 (\<Sum>u<n. local u)"
        using ser by (simp add: summary_loop_sum atLeast0LessThan)
      define s0 where "s0 = s\<lparr>pcs := (pcs s)[t := Finished]\<rparr>"
      have keep: "length (filter entered (pcs s0)) = n"
        using upd [of Finished] In_barrier arr full by (simp add: entered_def s0_def)
      have other: "pcs s0 ! u = pcs s ! u" if "u \<noteq> t" for u
        using that by (simp add: s0_def)
      have self: "pcs s0 ! t = Finished" using tl by (simp add: s0_def)
      have basics: "length (pcs s0) = n" "length (counts s0) = n" "arrived s0 = n"
        "counts s0 = counts s" "barrier_errors s0 = []"
        using len full err by (simp_all add: s0_def)
      have cnt0: "counts s0 ! u = (if pcs s0 ! u = At_store then 0 else local u)" if "u < n" for u
        using cnt [OF that] that In_barrier self by (cases "u = t") (simp_all add: other basics)
      show ?thesis
      proof (cases "t = serial")
        case True
        define s' where "s' = s0\<lparr>total_matches := summary_loop (counts s0) n 0 (total_matches s0),
            summed_by := summed_by s0 @ [t]\<rparr>"
        have step: "pool_step local n serial s t = s'"
          using In_barrier tl False True
          by (simp add: pool_step_def after_barrier_def barrier_rc_def s'_def s0_def)
        have old: "summed_by s0 = []" "total_matches s0 = 0"
          using sm tot In_barrier True by (simp_all add: s0_def)
        have "pool_inv local n serial s'"
        proof (rule pool_invI)
          show "length (pcs s') = n" "length (counts s') = n"
            using basics by (simp_all add: s'_def)
          show "arrived s' = length (filter entered (pcs s'))"
            using keep basics by (simp add: s'_def)
          show "counts s' ! u = (if pcs s' ! u = At_store then 0 else local u)" if "u < n" for u
            using cnt0 [OF that] by (simp add: s'_def)
          show "arrived s' = n" if "Finished \<in> set (pcs s')"
            using basics by (simp add: s'_def)
          show "summed_by s' = (if pcs s' ! serial = Finished then [serial] else [])"
            using old self True by (simp add: s'_def)
          show "total_matches s' = (if pcs s' ! serial = Finished then int32 (\<Sum>t<n. local t) else 0)"
            using old self True sum basics by (simp add: s'_def)
          show "barrier_errors s' = []" using basics by (simp add: s'_def)
        qed
        then show ?thesis by (simp add: step)
      next
        case ne: False
        have step: "pool_step local n serial s t = s0"
          using In_barrier tl False ne
          by (simp add: pool_step_def after_barrier_def barrier_rc_def s0_def
              PTHREAD_BARRIER_SERIAL_THREAD_def)
        have same: "pcs s0 ! serial = pcs s ! serial"
          using ne other [of serial] by simp
        have "pool_inv local n serial s0"
        proof (rule pool_invI)
          show "length (pcs s0) = n" "length (counts s0) = n" by (rule basics)+
          show "arrived s0 = length (filter entered (pcs s0))"
            using keep basics by simp
          show "counts s0 ! u = (if pcs s0 ! u = At_store then 0 else local u)" if "u < n" for u
            by (rule cnt0 [OF that])
          show "arrived s0 = n" if "Finished \<in> set (pcs s0)"
            by (rule basics)
          show "summed_by s0 = (if pcs s0 ! serial = Finished then [serial] else [])"
            unfolding same using sm by (simp add: s0_def)
          show "total_matches s0 = (if pcs s0 ! serial = Finished then int32 (\<Sum>t<n. local t) else 0)"
            unfolding same using tot by (simp add: s0_def)
          show "barrier_errors s0 = []" by (rule basics)
        qed
        then show ?thesis by (simp add: step)
      qed
    qed
  qed
qed

lemma pool_inv_run:
  "serial < n \<Longrightarrow> pool_inv local n serial (pool_run local n serial schedule)"
proof -
  assume ser: "serial < n"
  have "pool_inv local n serial s \<Longrightarrow>
        pool_inv local n serial (foldl (pool_step local n serial) s schedule)" for s
    by (induction schedule arbitrary: s) (simp_all add: pool_inv_step ser)
  then show ?thesis
    unfolding pool_run_def using pool_inv_init [OF ser] by blast
qed

text \<open>
  Claim C2, as stated, fails: \<open>worker_match_counts\<close> and \<open>g_total_matches_summary\<close> are
  of type \<open>int\<close>, and the loop of lines 68 to 70 adds with the \<open>+=\<close> of \<open>int\<close>. With two
  workers that have counted \<open>INT_MAX\<close> and 1 matching lines, all threads get past the
  barrier, the thread with the serial value runs the loop, and the total it leaves is
  \<open>INT_MIN\<close>, not the sum 2147483648 of the two counters.
\<close>

theorem sum_overflow_counterexample:
  "pcs (pool_run overflow_local 2 0 [0, 1, 0, 1, 0, 1]) = [Finished, Finished] \<and>
   summed_by (pool_run overflow_local 2 0 [0, 1, 0, 1, 0, 1]) = [0] \<and>
   counts (pool_run overflow_local 2 0 [0, 1, 0, 1, 0, 1]) = [2147483647, 1] \<and>
   sum_list (counts (pool_run overflow_local 2 0 [0, 1, 0, 1, 0, 1])) = 2147483648 \<and>
   sum overflow_local {..<2} = 2147483648 \<and>
   total_matches (pool_run overflow_local 2 0 [0, 1, 0, 1, 0, 1]) = - 2147483648 \<and>
   total_matches (pool_run overflow_local 2 0 [0, 1, 0, 1, 0, 1]) \<noteq> sum overflow_local {..<2}"
proof -
  have a: "pool_run overflow_local 2 0 [0, 1, 0, 1, 0, 1] =
      \<lparr>pcs = [Finished, Finished], counts = [2147483647, 1], arrived = 2,
       total_matches = - 2147483648, summed_by = [0], barrier_errors = []\<rparr>"
    by code_simp
  have b: "sum overflow_local {..<2} = 2147483648"
    by (simp add: overflow_local_def lessThan_Suc numeral_2_eq_2)
  show ?thesis unfolding a b by simp
qed

text \<open>
  Claim C2, amended. Let the library hand the serial value to any one of the
  \<open>num_workers\<close> threads, and let the threads store their counts, enter the barrier and
  leave it in any order (any schedule). Then at most one thread runs the summary loop,
  and it is the thread with the serial value; no thread gets an error value; once that
  thread is past the barrier it alone has run the loop, every slot of
  \<open>worker_match_counts\<close> holds its worker's count, and \<open>g_total_matches_summary\<close> is the sum
  of the counts as the \<open>int\<close> additions of the loop leave it: the sum itself exactly when
  the sum lies between \<open>INT_MIN\<close> and \<open>INT_MAX\<close>, and the sum reduced modulo \<open>2^32\<close> into
  that range otherwise. Before that the total is still 0. In particular, when all
  threads are past the barrier exactly one of them has computed the total.
\<close>

theorem one_thread_sums_all_counters:
  assumes "serial < num_workers"
  shows "let s = pool_run local num_workers serial schedule;
             exact = (\<Sum>t<num_workers. local t) in
           (summed_by s = [] \<or> summed_by s = [serial]) \<and>
           barrier_errors s = [] \<and>
           (summed_by s = [serial] \<longleftrightarrow> pcs s ! serial = Finished) \<and>
           (summed_by s = [serial] \<longrightarrow>
              counts s = map local [0..<num_workers] \<and>
              sum_list (counts s) = exact \<and>
              total_matches s = summary_loop (counts s) num_workers 0 0 \<and>
              total_matches s = int32 exact \<and>
              (total_matches s = exact \<longleftrightarrow> INT_MIN \<le> exact \<and> exact \<le> INT_MAX) \<and>
              (total_matches s - exact) mod 2 ^ 32 = 0 \<and>
              INT_MIN \<le> total_matches s \<and> total_matches s \<le> INT_MAX) \<and>
           (summed_by s = [] \<longrightarrow> total_matches s = 0) \<and>
           ((\<forall>t<num_workers. pcs s ! t = Finished) \<longrightarrow>
              summed_by s = [serial] \<and> total_matches s = int32 exact)"
proof -
  define s where "s = pool_run local num_workers serial schedule"
  define exact where "exact = (\<Sum>t<num_workers. local t)"
  have inv: "pool_inv local num_workers serial s"
    unfolding s_def using assms by (rule pool_inv_run)
  then have len: "length (pcs s) = num_workers" "length (counts s) = num_workers"
    and arr: "arrived s = length (filter entered (pcs s))"
    and cnt: "\<And>u. u < num_workers \<Longrightarrow>
                counts s ! u = (if pcs s ! u = At_store then 0 else local u)"
    and fin: "Finished \<in> set (pcs s) \<Longrightarrow> arrived s = num_workers"
    and sm: "summed_by s = (if pcs s ! serial = Finished then [serial] else [])"
    and tot: "total_matches s = (if pcs s ! serial = Finished then int32 exact else 0)"
    and err: "barrier_errors s = []"
    unfolding pool_inv_def exact_def by blast+
  have all_written: "counts s = map local [0..<num_workers]" if "pcs s ! serial = Finished"
  proof (rule nth_equalityI)
    show "length (counts s) = length (map local [0..<num_workers])"
      using len by simp
    fix u assume "u < length (counts s)"
    then have u: "u < num_workers" using len by simp
    have "pcs s ! serial \<in> set (pcs s)"
      using assms len by simp
    then have "Finished \<in> set (pcs s)"
      using that by simp
    from fin [OF this] have "entered (pcs s ! u)"
      using filter_all [of entered "pcs s" u] arr len u by simp
    then show "counts s ! u = map local [0..<num_workers] ! u"
      using cnt [OF u] u by (auto simp: entered_def)
  qed
  have sl: "sum_list (map local [0..<num_workers]) = exact"
    by (simp add: exact_def interv_sum_list_conv_sum_set_nat atLeast0LessThan)
  have loop: "summary_loop (map local [0..<num_workers]) num_workers 0 0 = int32 exact"
  proof -
    have "(\<Sum>t = 0..<num_workers. map local [0..<num_workers] ! t)
            = (\<Sum>t = 0..<num_workers. local t)"
      by (rule sum.cong) simp_all
    then show ?thesis
      using assms by (simp add: summary_loop_sum exact_def atLeast0LessThan)
  qed
  have iff: "int32 exact = exact \<longleftrightarrow> INT_MIN \<le> exact \<and> exact \<le> INT_MAX"
    using int32_range [of exact] int32_id [of exact] by auto
  have md: "(int32 exact - exact) mod 2 ^ 32 = 0"
  proof -
    have "int32 exact - exact
            = (exact + 2147483648) mod 4294967296 - (exact + 2147483648)"
      by (simp add: int32_def)
    also have "\<dots> = - (4294967296 * ((exact + 2147483648) div 4294967296))"
      by (simp add: minus_mult_div_eq_mod [symmetric])
    finally show ?thesis by simp
  qed
  have "(summed_by s = [] \<or> summed_by s = [serial]) \<and>
           barrier_errors s = [] \<and>
           (summed_by s = [serial] \<longleftrightarrow> pcs s ! serial = Finished) \<and>
           (summed_by s = [serial] \<longrightarrow>
              counts s = map local [0..<num_workers] \<and>
              sum_list (counts s) = exact \<and>
              total_matches s = summary_loop (counts s) num_workers 0 0 \<and>
              total_matches s = int32 exact \<and>
              (total_matches s = exact \<longleftrightarrow> INT_MIN \<le> exact \<and> exact \<le> INT_MAX) \<and>
              (total_matches s - exact) mod 2 ^ 32 = 0 \<and>
              INT_MIN \<le> total_matches s \<and> total_matches s \<le> INT_MAX) \<and>
           (summed_by s = [] \<longrightarrow> total_matches s = 0) \<and>
           ((\<forall>t<num_workers. pcs s ! t = Finished) \<longrightarrow>
              summed_by s = [serial] \<and> total_matches s = int32 exact)"
  proof (cases "pcs s ! serial = Finished")
    case True
    with sm tot err all_written sl loop iff md int32_range [of exact] show ?thesis
      by simp
  next
    case False
    with sm tot err assms show ?thesis by auto
  qed
  then show ?thesis
    unfolding Let_def s_def exact_def .
qed

theorem one_thread_sums_witness:
  "(0::nat) < 2 \<and> (1::nat) < 2 \<and>
   (let s = pool_run demo_local 2 0 [1, 0, 0, 1, 1, 0] in
      pcs s = [Finished, Finished] \<and> summed_by s = [0] \<and> counts s = [0, 1] \<and>
      total_matches s = 1) \<and>
   (let s = pool_run demo_local 2 0 [0, 1, 1, 0, 0, 0, 1] in
      pcs s = [Finished, Finished] \<and> summed_by s = [0] \<and> counts s = [0, 1] \<and>
      total_matches s = 1) \<and>
   (let s = pool_run demo_local 2 0 [0, 1, 1, 0, 1] in
      pcs s = [In_barrier, Finished] \<and> summed_by s = [] \<and> total_matches s = 0) \<and>
   (let s = pool_run overflow_local 2 1 [0, 1, 0, 1, 0, 1] in
      pcs s = [Finished, Finished] \<and> summed_by s = [1] \<and> counts s = [2147483647, 1] \<and>
      total_matches s = int32 2147483648 \<and> total_matches s = - 2147483648)"
proof -
  have a: "pool_run demo_local 2 0 [1, 0, 0, 1, 1, 0] =
      \<lparr>pcs = [Finished, Finished], counts = [0, 1], arrived = 2, total_matches = 1,
       summed_by = [0], barrier_errors = []\<rparr>"
    by code_simp
  have b: "pool_run demo_local 2 0 [0, 1, 1, 0, 0, 0, 1] =
      \<lparr>pcs = [Finished, Finished], counts = [0, 1], arrived = 2, total_matches = 1,
       summed_by = [0], barrier_errors = []\<rparr>"
    by code_simp
  have c: "pool_run demo_local 2 0 [0, 1, 1, 0, 1] =
      \<lparr>pcs = [In_barrier, Finished], counts = [0, 1], arrived = 2, total_matches = 0,
       summed_by = [], barrier_errors = []\<rparr>"
    by code_simp
  have d: "pool_run overflow_local 2 1 [0, 1, 0, 1, 0, 1] =
      \<lparr>pcs = [Finished, Finished], counts = [2147483647, 1], arrived = 2,
       total_matches = - 2147483648, summed_by = [1], barrier_errors = []\<rparr>"
    by code_simp
  have e: "int32 2147483648 = - 2147483648"
    by (simp add: int32_def)
  show ?thesis
    using one_thread_sums_all_counters [of 0 2 demo_local "[1, 0, 0, 1, 1, 0]"]
      one_thread_sums_all_counters [of 0 2 demo_local "[0, 1, 1, 0, 0, 0, 1]"]
      one_thread_sums_all_counters [of 0 2 demo_local "[0, 1, 1, 0, 1]"]
      one_thread_sums_all_counters [of 1 2 overflow_local "[0, 1, 0, 1, 0, 1]"]
    unfolding a b c d e by simp
qed

section \<open>Properties of the marker loop\<close>

lemma markers_ok_other:
  assumes "markers_ok n k s"
  shows "markers_ok n k (other_step s e)"
proof -
  from assms have "buffer_inv (buf (start (mbuf s)))" "\<not> faulted (start (mbuf s))"
    by (simp_all add: markers_ok_def start_def)
  from event_safe [OF this, of e] assms show ?thesis
    by (simp add: markers_ok_def other_step_def Let_def split: mpc.splits)
qed

lemma markers_ok_result:
  assumes b: "buffer_inv (mbuf s)" "\<not> mfault s"
    and d: "delivered s = [0..<k]" "k < n" "refused s = []" "attempted s = [0..<k] @ [k]"
    and r: "r = buffer_push (mbuf s) None \<or> r = buffer_push_wake (mbuf s) None"
  shows "markers_ok n k (marker_result s k r) \<or> markers_ok n (Suc k) (marker_result s k r)"
proof -
  from r b(1) consider "r = Ret False (mbuf s)" | "r = Blocked"
    | "r = Ret True (enqueue (mbuf s) None)" "count (mbuf s) \<noteq> capacity (mbuf s)"
    by (auto simp: buffer_push_wake_def buffer_push_cases split: if_splits)
  then show ?thesis
  proof cases
    case 1
    with b d have "markers_ok n k (marker_result s k r)"
      by (simp add: markers_ok_def marker_result_def)
    then show ?thesis ..
  next
    case 2
    with b d have "markers_ok n k (marker_result s k r)"
      by (simp add: markers_ok_def marker_result_def)
    then show ?thesis ..
  next
    case 3
    with b d have "markers_ok n (Suc k) (marker_result s k r)"
      by (simp add: markers_ok_def marker_result_def buffer_inv_enqueue)
    then show ?thesis ..
  qed
qed

lemma markers_ok_step:
  assumes "markers_ok n k s"
  shows "markers_ok n k (manager_step n s) \<or> markers_ok n (Suc k) (manager_step n s)"
proof -
  from assms have b: "buffer_inv (mbuf s)" "\<not> mfault s"
    and d: "delivered s = [0..<k]" "k \<le> n"
    by (simp_all add: markers_ok_def)
  show ?thesis
  proof (cases "mpc s")
    case (Marker_call i)
    with assms have i: "i = k" "refused s = []" "attempted s = [0..<k]"
      by (simp_all add: markers_ok_def)
    show ?thesis
    proof (cases "k < n")
      case True
      let ?s = "s\<lparr>attempted := attempted s @ [k]\<rparr>"
      have "markers_ok n k (marker_result ?s k (buffer_push (mbuf ?s) None)) \<or>
            markers_ok n (Suc k) (marker_result ?s k (buffer_push (mbuf ?s) None))"
        using b d i True by (intro markers_ok_result) simp_all
      then show ?thesis
        using Marker_call i True by (simp add: manager_step_def)
    next
      case False
      with d have "k = n" by simp
      then have "markers_ok n k (manager_step n s)"
        using Marker_call i b d by (simp add: manager_step_def markers_ok_def)
      then show ?thesis ..
    qed
  next
    case (Marker_wait i)
    with assms have i: "i = k" "k < n" "refused s = []" "attempted s = [0..<k] @ [k]"
      by (simp_all add: markers_ok_def)
    have "markers_ok n k (marker_result s k (buffer_push_wake (mbuf s) None)) \<or>
          markers_ok n (Suc k) (marker_result s k (buffer_push_wake (mbuf s) None))"
      using b d i by (intro markers_ok_result) simp_all
    then show ?thesis
      using Marker_wait i by (simp add: manager_step_def)
  next
    case Joining
    with assms show ?thesis by (simp add: manager_step_def)
  qed
qed

lemma markers_ok_action:
  "markers_ok n k s \<Longrightarrow> \<exists>k'. markers_ok n k' (manager_action n s a)"
  using markers_ok_step [of n k s] markers_ok_other [of n k s]
  by (cases a) auto

lemma markers_ok_fold:
  "markers_ok n k s \<Longrightarrow> \<exists>k'. markers_ok n k' (foldl (manager_action n) s schedule)"
proof (induction schedule arbitrary: s k)
  case Nil
  then show ?case by auto
next
  case (Cons a schedule)
  from markers_ok_action [OF Cons.prems, of a] obtain k' where
    "markers_ok n k' (manager_action n s a)" ..
  from Cons.IH [OF this] show ?case by simp
qed

lemma markers_ok_start: "buffer_inv b \<Longrightarrow> markers_ok n 0 (manager_start b)"
  by (simp add: markers_ok_def manager_start_def)

lemma joining_action:
  assumes "mpc s = Joining"
  shows "mpc (manager_action n s a) = Joining \<and>
         attempted (manager_action n s a) = attempted s \<and>
         delivered (manager_action n s a) = delivered s \<and>
         refused (manager_action n s a) = refused s"
  using assms by (cases a) (simp_all add: manager_step_def other_step_def Let_def)

lemma joining_fold:
  assumes "mpc s = Joining"
  shows "mpc (foldl (manager_action n) s rest) = Joining \<and>
         attempted (foldl (manager_action n) s rest) = attempted s \<and>
         delivered (foldl (manager_action n) s rest) = delivered s \<and>
         refused (foldl (manager_action n) s rest) = refused s"
  using assms
proof (induction rest arbitrary: s)
  case Nil
  then show ?case by simp
next
  case (Cons a rest)
  from joining_action [OF Cons.prems, of n a] Cons.IH [of "manager_action n s a"]
  show ?case by simp
qed

lemma markers_alone:
  "buffer_inv (mbuf s) \<Longrightarrow> mpc s = Marker_call i \<Longrightarrow> i + m \<le> n \<Longrightarrow>
   count (mbuf s) + int m \<le> capacity (mbuf s) \<Longrightarrow>
   mpc (foldl (manager_action n) s (replicate m Manager)) = Marker_call (i + m) \<and>
   delivered (foldl (manager_action n) s (replicate m Manager)) = delivered s @ [i..<i + m] \<and>
   attempted (foldl (manager_action n) s (replicate m Manager)) = attempted s @ [i..<i + m] \<and>
   refused (foldl (manager_action n) s (replicate m Manager)) = refused s \<and>
   queue_items (mbuf (foldl (manager_action n) s (replicate m Manager)))
     = queue_items (mbuf s) @ replicate m None"
proof (induction m arbitrary: s i)
  case 0
  then show ?case by simp
next
  case (Suc m)
  let ?s = "manager_step n s"
  from Suc.prems have room: "count (mbuf s) \<noteq> capacity (mbuf s)" and i: "i < n"
    by simp_all
  have push: "buffer_push (mbuf s) None = Ret True (enqueue (mbuf s) None)"
    using Suc.prems(1) room by (simp add: buffer_push_cases)
  have st: "mbuf ?s = enqueue (mbuf s) None" "mpc ?s = Marker_call (Suc i)"
    "delivered ?s = delivered s @ [i]" "attempted ?s = attempted s @ [i]"
    "refused ?s = refused s"
    using Suc.prems(2) i push by (simp_all add: manager_step_def marker_result_def)
  have inv: "buffer_inv (mbuf ?s)"
    unfolding st(1) using Suc.prems(1) room by (rule buffer_inv_enqueue)
  have q: "queue_items (enqueue (mbuf s) None) = queue_items (mbuf s) @ [None]"
    using Suc.prems(1) room by (rule queue_items_enqueue)
  have c: "count (mbuf ?s) = count (mbuf s) + 1" "capacity (mbuf ?s) = capacity (mbuf s)"
    unfolding st(1) using enqueue_fields [OF Suc.prems(1), of None] by simp_all
  have "Suc i + m \<le> n" "count (mbuf ?s) + int m \<le> capacity (mbuf ?s)"
    using Suc.prems(3,4) c by simp_all
  from Suc.IH [OF inv st(2) this]
  have ih: "mpc (foldl (manager_action n) ?s (replicate m Manager)) = Marker_call (Suc i + m)"
    "delivered (foldl (manager_action n) ?s (replicate m Manager))
       = delivered ?s @ [Suc i..<Suc i + m]"
    "attempted (foldl (manager_action n) ?s (replicate m Manager))
       = attempted ?s @ [Suc i..<Suc i + m]"
    "refused (foldl (manager_action n) ?s (replicate m Manager)) = refused ?s"
    "queue_items (mbuf (foldl (manager_action n) ?s (replicate m Manager)))
       = queue_items (mbuf ?s) @ replicate m None"
    by simp_all
  have u: "[i..<i + Suc m] = i # [Suc i..<Suc i + m]"
    by (simp add: upt_conv_Cons)
  have r: "foldl (manager_action n) s (replicate (Suc m) Manager)
             = foldl (manager_action n) ?s (replicate m Manager)"
    by simp
  show ?case
    unfolding r ih u st q by simp
qed

lemma markers_refused:
  assumes "buffer_inv b" "shutting_down b" "count b = capacity b" "0 < n"
  shows "deliver_markers n b [Manager] =
           (manager_start b)\<lparr>mpc := Joining, attempted := [0], refused := [0]\<rparr>"
  using assms
  by (simp add: deliver_markers_def manager_step_def manager_start_def marker_result_def
      buffer_push_cases)

text \<open>
  Claim C10. Whatever the other threads do on the buffer in between, at every moment of
  the marker loop the calls of \<open>buffer_push\<close> that returned \<open>true\<close> are those for the
  indices \<open>0 .. k - 1\<close>, in this order, for some \<open>k\<close> that is at most \<open>g_num_workers\<close>.
  While the manager is about to call \<open>buffer_push\<close> for index \<open>i\<close>, or asleep in that
  call, \<open>i = k\<close>, no call has returned \<open>false\<close>, and the calls made are those for
  \<open>0 .. k - 1\<close>, and the one for \<open>k\<close> when asleep in it. Once the manager is past the loop,
  either no call has returned \<open>false\<close>, all \<open>g_num_workers\<close> markers are delivered and
  exactly these calls were made, or exactly one call has returned \<open>false\<close>, the last one
  made, for index \<open>k < g_num_workers\<close>, and nothing that happens later adds a call, a
  delivery or a refusal: no push is repeated and none follows a failure. A manager that
  finds room for \<open>m\<close> markers and runs alone delivers \<open>m\<close> markers, which are queued behind
  what the buffer held, and goes on with index \<open>m\<close>; with room for all markers it leaves
  the loop after \<open>g_num_workers\<close> deliveries. A manager that finds the buffer full after a
  shutdown request leaves the loop after one refused call.
\<close>

theorem markers_delivered_form_a_prefix:
  assumes "buffer_inv b"
  shows "let s = deliver_markers num_workers b schedule; k = length (delivered s) in
           \<not> mfault s \<and> k \<le> num_workers \<and> delivered s = [0..<k] \<and>
           (case mpc s of
              Marker_call i \<Rightarrow> i = k \<and> refused s = [] \<and> attempted s = [0..<k]
            | Marker_wait i \<Rightarrow>
                i = k \<and> k < num_workers \<and> refused s = [] \<and> attempted s = [0..<k] @ [k]
            | Joining \<Rightarrow>
                refused s = [] \<and> k = num_workers \<and> attempted s = [0..<k] \<or>
                refused s = [k] \<and> k < num_workers \<and> attempted s = [0..<k] @ [k]) \<and>
           (mpc s = Joining \<longrightarrow>
              (\<forall>rest. let s' = deliver_markers num_workers b (schedule @ rest) in
                 mpc s' = Joining \<and> attempted s' = attempted s \<and>
                 delivered s' = delivered s \<and> refused s' = refused s)) \<and>
           (m \<le> num_workers \<and> count b + int m \<le> capacity b \<longrightarrow>
              (let s' = deliver_markers num_workers b (replicate m Manager) in
                 mpc s' = Marker_call m \<and> delivered s' = [0..<m] \<and> attempted s' = [0..<m] \<and>
                 refused s' = [] \<and> queue_items (mbuf s') = queue_items b @ replicate m None)) \<and>
           (count b + int num_workers \<le> capacity b \<longrightarrow>
              (let s' = deliver_markers num_workers b (replicate (Suc num_workers) Manager) in
                 mpc s' = Joining \<and> delivered s' = [0..<num_workers] \<and> refused s' = [] \<and>
                 queue_items (mbuf s') = queue_items b @ replicate num_workers None)) \<and>
           (shutting_down b \<and> count b = capacity b \<and> 0 < num_workers \<longrightarrow>
              (let s' = deliver_markers num_workers b [Manager] in
                 mpc s' = Joining \<and> delivered s' = [] \<and> attempted s' = [0] \<and>
                 refused s' = [0] \<and> mbuf s' = b))"
proof -
  define s where "s = deliver_markers num_workers b schedule"
  from markers_ok_fold [OF markers_ok_start [OF assms], of num_workers schedule]
  obtain k where ok: "markers_ok num_workers k s"
    unfolding s_def deliver_markers_def by blast
  then have d: "delivered s = [0..<k]" and k: "length (delivered s) = k"
    by (simp_all add: markers_ok_def)
  have later: "mpc s' = Joining \<and> attempted s' = attempted s \<and>
      delivered s' = delivered s \<and> refused s' = refused s"
    if "mpc s = Joining" and "s' = deliver_markers num_workers b (schedule @ rest)"
    for rest s'
    using joining_fold [OF that(1), of num_workers rest] that(2)
    by (simp add: deliver_markers_def s_def)
  have now: "\<not> mfault s \<and> k \<le> num_workers \<and> delivered s = [0..<k] \<and>
           (case mpc s of
              Marker_call i \<Rightarrow> i = k \<and> refused s = [] \<and> attempted s = [0..<k]
            | Marker_wait i \<Rightarrow>
                i = k \<and> k < num_workers \<and> refused s = [] \<and> attempted s = [0..<k] @ [k]
            | Joining \<Rightarrow>
                refused s = [] \<and> k = num_workers \<and> attempted s = [0..<k] \<or>
                refused s = [k] \<and> k < num_workers \<and> attempted s = [0..<k] @ [k])"
    using ok unfolding markers_ok_def by blast
  have alone: "mpc s' = Marker_call j \<and> delivered s' = [0..<j] \<and> attempted s' = [0..<j] \<and>
      refused s' = [] \<and> queue_items (mbuf s') = queue_items b @ replicate j None"
    if "j \<le> num_workers" "count b + int j \<le> capacity b"
      and "s' = deliver_markers num_workers b (replicate j Manager)" for j s'
    using markers_alone [of "manager_start b" 0 j num_workers] assms that
    by (simp add: deliver_markers_def manager_start_def)
  have all: "mpc s' = Joining \<and> delivered s' = [0..<num_workers] \<and> refused s' = [] \<and>
      queue_items (mbuf s') = queue_items b @ replicate num_workers None"
    if c: "count b + int num_workers \<le> capacity b"
      and s': "s' = deliver_markers num_workers b (replicate (Suc num_workers) Manager)" for s'
  proof -
    define s1 where "s1 = deliver_markers num_workers b (replicate num_workers Manager)"
    have a: "mpc s1 = Marker_call num_workers" "delivered s1 = [0..<num_workers]"
      "refused s1 = []" "queue_items (mbuf s1) = queue_items b @ replicate num_workers None"
      using alone [OF order_refl c s1_def] by simp_all
    have r: "replicate (Suc num_workers) Manager = replicate num_workers Manager @ [Manager]"
      by (simp add: replicate_append_same)
    have "s' = manager_step num_workers s1"
      unfolding s' s1_def deliver_markers_def r
      by (simp only: foldl_append foldl.simps manager_action.simps)
    with a show ?thesis by (simp add: manager_step_def)
  qed
  have shut: "mpc s' = Joining \<and> delivered s' = [] \<and> attempted s' = [0] \<and>
      refused s' = [0] \<and> mbuf s' = b"
    if "shutting_down b" "count b = capacity b" "0 < num_workers"
      and "s' = deliver_markers num_workers b [Manager]" for s'
    using markers_refused [OF assms that(1-3)] that(4) by (simp add: manager_start_def)
  show ?thesis
    unfolding Let_def s_def [symmetric] k using now later alone all shut by blast
qed

theorem markers_witness:
  "buffer_inv demo_full \<and>
   (let s = deliver_markers 2 demo_full demo_schedule in
      delivered s = [0] \<and> attempted s = [0, 1] \<and> refused s = [1] \<and> mpc s = Joining \<and>
      queue_items (mbuf s) = [Some ''c'', None]) \<and>
   (let s' = deliver_markers 2 demo_full (demo_schedule @ [Other Pop, Manager]) in
      delivered s' = [0] \<and> attempted s' = [0, 1] \<and> refused s' = [1]) \<and>
   buffer_inv demo_buffer \<and>
   (let s = deliver_markers 3 demo_buffer relay_schedule in
      delivered s = [0, 1, 2] \<and> attempted s = [0, 1, 2] \<and> refused s = [] \<and>
      mpc s = Joining) \<and>
   (let s = deliver_markers 3 demo_buffer (take 3 relay_schedule) in
      delivered s = [0, 1] \<and> attempted s = [0, 1, 2] \<and> refused s = [] \<and>
      mpc s = Marker_wait 2) \<and>
   (2::nat) \<le> 3 \<and> count demo_buffer + int 2 \<le> capacity demo_buffer \<and>
   (let s = deliver_markers 3 demo_buffer (replicate 2 Manager) in
      delivered s = [0, 1] \<and> mpc s = Marker_call 2 \<and>
      queue_items (mbuf s) = queue_items demo_buffer @ [None, None]) \<and>
   buffer_inv (buffer_signal_shutdown demo_full) \<and>
   (let s = deliver_markers 3 (buffer_signal_shutdown demo_full) [Manager] in
      delivered s = [] \<and> attempted s = [0] \<and> refused s = [0] \<and> mpc s = Joining)"
proof -
  have i: "buffer_inv demo_full"
    by (simp add: buffer_inv_def demo_full_def)
  have j: "buffer_inv demo_buffer"
    by (simp add: buffer_inv_def demo_buffer_def)
  have l: "buffer_inv (buffer_signal_shutdown demo_full)"
    by (simp add: buffer_inv_def demo_full_def buffer_signal_shutdown_def)
  have a: "deliver_markers 2 demo_full demo_schedule =
      \<lparr>mbuf = \<lparr>lines = [Some ''c'', None], capacity = 2, count = 2, head = 0, tail = 0,
                shutting_down = True\<rparr>,
       mpc = Joining, attempted = [0, 1], delivered = [0], refused = [1], mfault = False\<rparr>"
    by code_simp
  have q: "queue_items \<lparr>lines = [Some ''c'', None], capacity = 2, count = 2, head = 0,
      tail = 0, shutting_down = True\<rparr> = [Some ''c'', None]"
    by code_simp
  have b: "deliver_markers 3 demo_buffer relay_schedule =
      \<lparr>mbuf = \<lparr>lines = [None, None], capacity = 2, count = 2, head = 1, tail = 1,
                shutting_down = False\<rparr>,
       mpc = Joining, attempted = [0, 1, 2], delivered = [0, 1, 2], refused = [],
       mfault = False\<rparr>"
    by code_simp
  have c: "deliver_markers 3 demo_buffer (take 3 relay_schedule) =
      \<lparr>mbuf = \<lparr>lines = [None, None], capacity = 2, count = 2, head = 0, tail = 0,
                shutting_down = False\<rparr>,
       mpc = Marker_wait 2, attempted = [0, 1, 2], delivered = [0, 1], refused = [],
       mfault = False\<rparr>"
    by code_simp
  have d: "deliver_markers 3 demo_buffer (replicate 2 Manager) =
      \<lparr>mbuf = \<lparr>lines = [None, None], capacity = 2, count = 2, head = 0, tail = 0,
                shutting_down = False\<rparr>,
       mpc = Marker_call 2, attempted = [0, 1], delivered = [0, 1], refused = [],
       mfault = False\<rparr>"
    by code_simp
  have e: "deliver_markers 3 (buffer_signal_shutdown demo_full) [Manager] =
      \<lparr>mbuf = buffer_signal_shutdown demo_full,
       mpc = Joining, attempted = [0], delivered = [], refused = [0], mfault = False\<rparr>"
    by code_simp
  have f: "queue_items demo_buffer = []" "count demo_buffer + int 2 \<le> capacity demo_buffer"
    "queue_items \<lparr>lines = [None, None :: string option], capacity = 2, count = 2,
                head = 0, tail = 0, shutting_down = False\<rparr> = [None, None]"
    by code_simp+
  have g: "count demo_buffer + 2 \<le> capacity demo_buffer"
    by (simp add: demo_buffer_def)
  note t = markers_delivered_form_a_prefix
  show ?thesis
    using t [OF i, where num_workers = 2 and schedule = demo_schedule and m = 0]
      t [OF j, where num_workers = 3 and schedule = relay_schedule and m = 2]
      t [OF j, where num_workers = 3 and schedule = "take 3 relay_schedule" and m = 2]
      t [OF l, where num_workers = 3 and schedule = "[]" and m = 0]
    unfolding a b c d e f Let_def by (simp add: i j l q f g)
qed

end
